theory Spec2Isabelle
  imports Main "HOL-Library.AList"
begin

section \<open>The broadcaster of \<^verbatim>\<open>src/index.ts\<close>\<close>

text \<open>
  The class \<^verbatim>\<open>AsyncBroadcaster\<close> keeps a buffer of values, a counter for listener
  identities, a \<^verbatim>\<open>Map\<close> from identity to cursor, and one pending promise with its
  resolver. Its methods run on one JavaScript thread: a method body runs without
  interruption from one suspension point (\<^verbatim>\<open>await\<close>, \<^verbatim>\<open>yield\<close>) to the next. The model
  has one function for each such run, and an event says which run happens next.

  \<^item> Cursors are JavaScript numbers; they are modelled as \<open>int\<close> (no bound), so that
    "a cursor is never negative" is a statement and not a property of the type.
  \<^item> \<^verbatim>\<open>Map\<close> keeps insertion order, and \<^verbatim>\<open>set\<close> on a present key keeps its place: an
    association list with \<open>AList.update\<close> and \<open>AList.delete\<close>.
  \<^item> \<^verbatim>\<open>_nextValue\<close> and \<^verbatim>\<open>_resolveNextValue\<close> are assigned together in both places of the
    source, so one field holds the identity of the pending promise.
  \<^item> A promise is a number; the promises resolved so far are a set. A listener that
    waits keeps the promise it waits for, as the closure of \<^verbatim>\<open>waitOrAbort\<close> does.
  \<^item> The runs may interleave in any order: between the resolution of a promise and the
    moment a waiting listener goes on, any other event may happen.
  \<^item> A value counts as handed to the consumer in the run that reads it from the buffer;
    the tick an async generator spends on \<^verbatim>\<open>yield\<close> and \<^verbatim>\<open>return\<close> before the consumer's
    promise settles runs no line of the source and is not a state of the model.
  \<^item> The states the theorems speak of are the states between runs. Inside \<^verbatim>\<open>_trim\<close> the
    buffer is cut before the cursors are rebased; no other code runs in between.
\<close>

subsection \<open>Data\<close>

text \<open>What \<^verbatim>\<open>Math.min\<close> returns: a number of the list, or \<^verbatim>\<open>Infinity\<close> for no argument.\<close>

datatype number = Num int | Infinity

fun Math_min :: "int list \<Rightarrow> number" where
  "Math_min [] = Infinity"
| "Math_min (x # xs) = (case Math_min xs of Infinity \<Rightarrow> Num x | Num m \<Rightarrow> Num (min x m))"

record 'a broadcaster =
  buffer :: "'a list"
  nextGeneratorID :: nat
  indices :: "(nat \<times> int) list"
  nextValue :: "nat option"

text \<open>
  The result a consumer gets for one request on the async generator: a value
  (\<open>None\<close> is \<^verbatim>\<open>undefined\<close>, what an out-of-range array read gives), completion, or a
  rejection.
\<close>

datatype 'a iter_result = Value "'a option" | Done | Rejected

text \<open>
  Where the generator of \<^verbatim>\<open>_values\<close> stands: not started (no line of the body has run),
  suspended at the \<^verbatim>\<open>await\<close> of line 67 (with its \<^verbatim>\<open>id\<close> and the promise it waits for),
  suspended at the \<^verbatim>\<open>yield\<close> of line 82 (with its \<^verbatim>\<open>id\<close>), or completed (with its
  \<^verbatim>\<open>id\<close> when the body ever started).
\<close>

datatype gstate =
  SuspendedStart
| AwaitNextValue nat nat
| SuspendedYield nat
| Completed "nat option"

text \<open>
  A generator object: the \<^verbatim>\<open>signal\<close> option it was made with (the identity of an
  \<^verbatim>\<open>AbortSignal\<close>), its control state, and two history fields that the code does not
  have: the results handed to its consumer so far, and how many values upstream had
  produced when the body started.
\<close>

record 'a generator =
  signal :: "nat option"
  gstate :: gstate
  results :: "'a iter_result list"
  joined :: "nat option"

text \<open>
  The whole system: the broadcaster object, the generator objects made so far, whether
  the \<^verbatim>\<open>for await\<close> loop of \<^verbatim>\<open>_pushAll\<close> is still running, the promises made for
  \<^verbatim>\<open>_nextValue\<close> and which of them are resolved, the abort signals that have fired, and
  the history of the values upstream produced.
\<close>

record 'a world =
  bc :: "'a broadcaster"
  generators :: "'a generator list"
  pushing :: bool
  promises :: nat
  resolved :: "nat set"
  aborted :: "nat set"
  produced :: "'a list"

datatype error = NotEnabled | NonNullAssertion

datatype 'a event =
  Push 'a
| UpstreamEnd
| Values "nat option"
| Next nat
| Return nat
| Throw nat
| Settle nat
| Abort nat

subsection \<open>The methods\<close>

text \<open>
  \<^verbatim>\<open>_trim\<close> (lines 100-108). With no listener, \<^verbatim>\<open>Math.min()\<close> is \<^verbatim>\<open>Infinity\<close>, the test
  \<^verbatim>\<open>minIndex > 0\<close> succeeds, \<^verbatim>\<open>splice(0, Infinity)\<close> removes every element, and the loop
  over the entries has nothing to visit. Otherwise \<^verbatim>\<open>splice(0, minIndex)\<close> removes the
  first \<open>minIndex\<close> elements (all of them when there are fewer).
\<close>

definition trim :: "'a broadcaster \<Rightarrow> 'a broadcaster" where
  "trim b =
     (case Math_min (map snd (indices b)) of
        Infinity \<Rightarrow> b\<lparr>buffer := []\<rparr>
      | Num minIndex \<Rightarrow>
          if minIndex > 0
          then b\<lparr>buffer := drop (nat minIndex) (buffer b),
                 indices := map (\<lambda>(i, n). (i, n - minIndex)) (indices b)\<rparr>
          else b)"

text \<open>\<^verbatim>\<open>_cleanup\<close> (lines 92-95).\<close>

definition cleanup :: "nat \<Rightarrow> 'a broadcaster \<Rightarrow> 'a broadcaster" where
  "cleanup i b = trim (b\<lparr>indices := AList.delete i (indices b)\<rparr>)"

text \<open>
  The constructor (lines 29-33): \<^verbatim>\<open>_pushAll\<close> is started when an iterable is given.
\<close>

definition new_AsyncBroadcaster :: "bool \<Rightarrow> 'a world" where
  "new_AsyncBroadcaster has_iterable =
     \<lparr>bc = \<lparr>buffer = [], nextGeneratorID = 0, indices = [], nextValue = None\<rparr>,
      generators = [], pushing = has_iterable, promises = 0, resolved = {},
      aborted = {}, produced = []\<rparr>"

text \<open>
  One turn of the loop of \<^verbatim>\<open>_pushAll\<close> (lines 37-40): append, resolve the pending
  promise when there is one, forget it.
\<close>

definition pushAll :: "'a \<Rightarrow> 'a world \<Rightarrow> 'a world" where
  "pushAll v w =
     w\<lparr>bc := (bc w)\<lparr>buffer := buffer (bc w) @ [v], nextValue := None\<rparr>,
       resolved := (case nextValue (bc w) of None \<Rightarrow> resolved w
                    | Some p \<Rightarrow> insert p (resolved w)),
       produced := produced w @ [v]\<rparr>"

text \<open>\<^verbatim>\<open>signal?.aborted\<close> for the generator \<open>x\<close>.\<close>

definition signal_aborted :: "'a world \<Rightarrow> 'a generator \<Rightarrow> bool" where
  "signal_aborted w x = (case signal x of None \<Rightarrow> False | Some s \<Rightarrow> s \<in> aborted w)"

text \<open>
  The outer \<^verbatim>\<open>finally\<close> of \<^verbatim>\<open>_values\<close> (lines 84-89): clean up and return, which
  completes the generator; the pending request is answered with completion.
\<close>

definition values_finally :: "nat \<Rightarrow> nat \<Rightarrow> 'a world \<Rightarrow> 'a world" where
  "values_finally g i w =
     (let x = generators w ! g
      in w\<lparr>bc := cleanup i (bc w),
           generators := (generators w)
             [g := x\<lparr>gstate := Completed (Some i), results := results x @ [Done]\<rparr>]\<rparr>)"

text \<open>
  Lines 79-82: read the buffer at the cursor (\<^verbatim>\<open>undefined\<close> out of range), advance the
  cursor, trim, yield.
\<close>

definition values_yield :: "nat \<Rightarrow> nat \<Rightarrow> int \<Rightarrow> 'a world \<Rightarrow> 'a world" where
  "values_yield g i index w =
     (let b = bc w;
          v = (if 0 \<le> index \<and> index < int (length (buffer b))
               then Some (buffer b ! nat index) else None);
          x = generators w ! g
      in w\<lparr>bc := trim (b\<lparr>indices := AList.update i (index + 1) (indices b)\<rparr>),
           generators := (generators w)
             [g := x\<lparr>gstate := SuspendedYield i, results := results x @ [Value v]\<rparr>]\<rparr>)"

text \<open>
  Lines 63-67: make the pending promise when there is none (\<^verbatim>\<open>??=\<close>), and wait for it.
\<close>

definition values_wait :: "nat \<Rightarrow> nat \<Rightarrow> 'a world \<Rightarrow> 'a world" where
  "values_wait g i w =
     (let x = generators w ! g
      in case nextValue (bc w) of
           Some p \<Rightarrow>
             w\<lparr>generators := (generators w)[g := x\<lparr>gstate := AwaitNextValue i p\<rparr>]\<rparr>
         | None \<Rightarrow>
             w\<lparr>bc := (bc w)\<lparr>nextValue := Some (promises w)\<rparr>,
               promises := promises w + 1,
               generators := (generators w)
                 [g := x\<lparr>gstate := AwaitNextValue i (promises w)\<rparr>]\<rparr>)"

text \<open>
  The head of the \<^verbatim>\<open>while\<close> loop (lines 58-62), and what follows in each case. The
  non-null assertion of \<^verbatim>\<open>this._indices.get(id)!\<close> is a branch of the model.
\<close>

definition values_loop :: "nat \<Rightarrow> nat \<Rightarrow> 'a world \<Rightarrow> error + 'a world" where
  "values_loop g i w =
     (if signal_aborted w (generators w ! g) then Inr (values_finally g i w)
      else case map_of (indices (bc w)) i of
        None \<Rightarrow> Inl NonNullAssertion
      | Some index \<Rightarrow>
          if index = int (length (buffer (bc w)))
          then Inr (values_wait g i w)
          else Inr (values_yield g i index w))"

text \<open>
  The start of the body (lines 50-55): take an identity, register the cursor at the
  end of the buffer; then the loop is entered.
\<close>

definition values_register :: "nat \<Rightarrow> 'a world \<Rightarrow> 'a world" where
  "values_register g w =
     (let b = bc w; i = nextGeneratorID b; x = generators w ! g
      in w\<lparr>bc := b\<lparr>nextGeneratorID := i + 1,
                     indices := AList.update i (int (length (buffer b))) (indices b)\<rparr>,
           generators := (generators w)
             [g := x\<lparr>joined := Some (length (produced w))\<rparr>]\<rparr>)"

definition values_start :: "nat \<Rightarrow> 'a world \<Rightarrow> error + 'a world" where
  "values_start g w = values_loop g (nextGeneratorID (bc w)) (values_register g w)"

text \<open>
  After the \<^verbatim>\<open>await\<close> (lines 68-78). The wait ends when the promise is resolved or when
  the signal fires (\<^verbatim>\<open>makeWaitOrAbort\<close>, lines 114-126, rejects then). The inner
  \<^verbatim>\<open>finally\<close> looks at the signal only: when it has fired, it cleans up and returns,
  and the outer \<^verbatim>\<open>finally\<close> cleans up again.
\<close>

definition values_resume :: "nat \<Rightarrow> nat \<Rightarrow> nat \<Rightarrow> 'a world \<Rightarrow> error + 'a world" where
  "values_resume g i p w =
     (let x = generators w ! g
      in if signal_aborted w x
         then Inr (values_finally g i (w\<lparr>bc := cleanup i (bc w)\<rparr>))
         else if p \<in> resolved w
         then (case map_of (indices (bc w)) i of
                 None \<Rightarrow> Inl NonNullAssertion
               | Some index \<Rightarrow> Inr (values_yield g i index w))
         else Inl NotEnabled)"

text \<open>A request answered without running the body.\<close>

definition answer :: "nat \<Rightarrow> gstate \<Rightarrow> 'a iter_result \<Rightarrow> 'a world \<Rightarrow> 'a world" where
  "answer g st r w =
     (let x = generators w ! g
      in w\<lparr>generators := (generators w)[g := x\<lparr>gstate := st, results := results x @ [r]\<rparr>]\<rparr>)"

subsection \<open>Events\<close>

text \<open>
  \<^item> \<open>Push v\<close>: upstream hands \<open>v\<close> to the loop of \<^verbatim>\<open>_pushAll\<close>; \<open>UpstreamEnd\<close>: upstream
    is exhausted (or throws) and the loop is left.
  \<^item> \<open>Values sg\<close>: a call of \<^verbatim>\<open>_values\<close> through \<^verbatim>\<open>iterable\<close> (lines 22-27). Calling an
    async generator function runs none of its body.
  \<^item> \<open>Next g\<close>, \<open>Return g\<close>, \<open>Throw g\<close>: the consumer's requests on generator \<open>g\<close>. A
    consumer asks when its last request is answered, as \<^verbatim>\<open>for await\<close> does; a request
    on a generator that is waiting is not an event of the model (\<open>NotEnabled\<close>).
    \<^verbatim>\<open>return\<close> and \<^verbatim>\<open>throw\<close> on a generator suspended at \<^verbatim>\<open>yield\<close> run the outer
    \<^verbatim>\<open>finally\<close>, whose \<^verbatim>\<open>return\<close> replaces the exception.
  \<^item> \<open>Settle g\<close>: the wait of generator \<open>g\<close> is over and its body goes on.
  \<^item> \<open>Abort s\<close>: the signal \<open>s\<close> fires.
\<close>

fun step :: "'a event \<Rightarrow> 'a world \<Rightarrow> error + 'a world" where
  "step (Push v) w = (if pushing w then Inr (pushAll v w) else Inl NotEnabled)"
| "step UpstreamEnd w = (if pushing w then Inr (w\<lparr>pushing := False\<rparr>) else Inl NotEnabled)"
| "step (Values sg) w =
     Inr (w\<lparr>generators := generators w @
            [\<lparr>signal = sg, gstate = SuspendedStart, results = [], joined = None\<rparr>]\<rparr>)"
| "step (Abort s) w = Inr (w\<lparr>aborted := insert s (aborted w)\<rparr>)"
| "step (Next g) w =
     (if g < length (generators w)
      then case gstate (generators w ! g) of
             SuspendedStart \<Rightarrow> values_start g w
           | SuspendedYield i \<Rightarrow> values_loop g i w
           | AwaitNextValue i p \<Rightarrow> Inl NotEnabled
           | Completed io \<Rightarrow> Inr (answer g (Completed io) Done w)
      else Inl NotEnabled)"
| "step (Return g) w =
     (if g < length (generators w)
      then case gstate (generators w ! g) of
             SuspendedStart \<Rightarrow> Inr (answer g (Completed None) Done w)
           | SuspendedYield i \<Rightarrow> Inr (values_finally g i w)
           | AwaitNextValue i p \<Rightarrow> Inl NotEnabled
           | Completed io \<Rightarrow> Inr (answer g (Completed io) Done w)
      else Inl NotEnabled)"
| "step (Throw g) w =
     (if g < length (generators w)
      then case gstate (generators w ! g) of
             SuspendedStart \<Rightarrow> Inr (answer g (Completed None) Rejected w)
           | SuspendedYield i \<Rightarrow> Inr (values_finally g i w)
           | AwaitNextValue i p \<Rightarrow> Inl NotEnabled
           | Completed io \<Rightarrow> Inr (answer g (Completed io) Rejected w)
      else Inl NotEnabled)"
| "step (Settle g) w =
     (if g < length (generators w)
      then case gstate (generators w ! g) of
             AwaitNextValue i p \<Rightarrow> values_resume g i p w
           | _ \<Rightarrow> Inl NotEnabled
      else Inl NotEnabled)"

fun run :: "'a event list \<Rightarrow> 'a world \<Rightarrow> error + 'a world" where
  "run [] w = Inr w"
| "run (e # es) w = (case step e w of Inl err \<Rightarrow> Inl err | Inr w' \<Rightarrow> run es w')"

text \<open>What a consumer has received: the values among its results, in order.\<close>

fun received :: "'a iter_result list \<Rightarrow> 'a option list" where
  "received [] = []"
| "received (Value v # rs) = v # received rs"
| "received (r # rs) = received rs"

subsection \<open>The invariant of the reachable states\<close>

text \<open>
  A broadcaster is well formed when the keys of the registry are distinct, every cursor
  lies between 0 and the length of the buffer, and every key is an identity already
  handed out.
\<close>

definition wf_bc :: "'a broadcaster \<Rightarrow> bool" where
  "wf_bc b \<longleftrightarrow>
     distinct (map fst (indices b)) \<and>
     (\<forall>i c. map_of (indices b) i = Some c \<longrightarrow>
        0 \<le> c \<and> c \<le> int (length (buffer b)) \<and> i < nextGeneratorID b)"

text \<open>What a listener has still to read: the buffer from its cursor on.\<close>

definition unread :: "'a broadcaster \<Rightarrow> nat \<Rightarrow> 'a list option" where
  "unread b i = map_option (\<lambda>c. drop (nat c) (buffer b)) (map_of (indices b) i)"

text \<open>The identity of a generator whose body has started and not completed.\<close>

fun gid :: "gstate \<Rightarrow> nat option" where
  "gid (AwaitNextValue i p) = Some i"
| "gid (SuspendedYield i) = Some i"
| "gid SuspendedStart = None"
| "gid (Completed io) = None"

text \<open>
  A listener that joined when upstream had produced \<open>n\<close> values is in step with
  upstream when the values produced since are exactly those it has received followed by
  those it has still to read.
\<close>

definition sync :: "'a list \<Rightarrow> nat \<Rightarrow> 'a iter_result list \<Rightarrow> 'a list \<Rightarrow> bool" where
  "sync vs n rs u \<longleftrightarrow> n \<le> length vs \<and> map Some (drop n vs) = received rs @ map Some u"

text \<open>
  What holds of one generator, by its control state. A generator that waits for a
  promise that is not resolved waits for the pending one and has nothing to read; one
  that waits for a resolved promise has something to read.
\<close>

definition gen_ok ::
  "'a broadcaster \<Rightarrow> nat \<Rightarrow> nat set \<Rightarrow> 'a list \<Rightarrow> 'a generator \<Rightarrow> bool" where
  "gen_ok b P R vs x =
     (case gstate x of
        SuspendedStart \<Rightarrow> results x = [] \<and> joined x = None
      | AwaitNextValue i p \<Rightarrow>
          p < P \<and>
          (\<exists>u n. unread b i = Some u \<and> joined x = Some n \<and> sync vs n (results x) u \<and>
             (if p \<in> R then u \<noteq> [] else nextValue b = Some p \<and> u = []))
      | SuspendedYield i \<Rightarrow>
          (\<exists>u n. unread b i = Some u \<and> joined x = Some n \<and> sync vs n (results x) u)
      | Completed None \<Rightarrow> received (results x) = [] \<and> joined x = None
      | Completed (Some i) \<Rightarrow>
          unread b i = None \<and> i < nextGeneratorID b \<and>
          (\<exists>n rest. joined x = Some n \<and> n \<le> length vs \<and>
             map Some (drop n vs) = received (results x) @ rest))"

definition ok5 ::
  "'a broadcaster \<Rightarrow> 'a generator list \<Rightarrow> nat \<Rightarrow> nat set \<Rightarrow> 'a list \<Rightarrow> bool" where
  "ok5 b gs P R vs \<longleftrightarrow>
     wf_bc b \<and>
     (\<forall>p. nextValue b = Some p \<longrightarrow> p \<notin> R \<and> p < P) \<and>
     (\<forall>p \<in> R. p < P) \<and>
     (\<forall>g < length gs. gen_ok b P R vs (gs ! g)) \<and>
     (\<forall>g h i. g < length gs \<and> h < length gs \<and> gid (gstate (gs ! g)) = Some i \<and>
        gid (gstate (gs ! h)) = Some i \<longrightarrow> g = h)"

definition world_ok :: "'a world \<Rightarrow> bool" where
  "world_ok w = ok5 (bc w) (generators w) (promises w) (resolved w) (produced w)"


subsection \<open>Traces\<close>

text \<open>The values upstream hands over in the course of a trace.\<close>

fun pushed :: "'a event \<Rightarrow> 'a list" where
  "pushed (Push v) = [v]"
| "pushed e = []"

definition upstream :: "'a event list \<Rightarrow> 'a list" where
  "upstream es = concat (map pushed es)"

text \<open>
  How many values a step removes from the front of the buffer: the length before the
  step, with the value the step appends, less the length after it.
\<close>

definition trimmed :: "'a event \<Rightarrow> 'a world \<Rightarrow> 'a world \<Rightarrow> int" where
  "trimmed e w w' = int (length (buffer (bc w) @ pushed e)) - int (length (buffer (bc w')))"

subsection \<open>Example states and traces\<close>

text \<open>Concrete inputs at which the theorems below are evaluated.\<close>

definition trim_example :: "nat broadcaster" where
  "trim_example =
     \<lparr>buffer = [10, 11, 12, 13], nextGeneratorID = 3, indices = [(0, 2), (2, 3)],
      nextValue = None\<rparr>"

definition no_listener_example :: "nat broadcaster" where
  "no_listener_example = \<lparr>buffer = [2], nextGeneratorID = 1, indices = [], nextValue = None\<rparr>"

definition completion_example :: "nat event list" where
  "completion_example = [Values None, Next 0, Push 1, Settle 0, UpstreamEnd, Next 0]"

definition ordering_example :: "nat event list" where
  "ordering_example = [Push 1, Settle 0, Push 2, Push 3, Next 0]"

definition late_join_example :: "nat event list" where
  "late_join_example = [Push 1, Push 2, Values None]"

definition wake_example :: "nat event list" where
  "wake_example = [Values None, Values None, Next 0, Next 1, Push 7]"

definition idle_sequence_example :: "nat event list" where
  "idle_sequence_example = [Push 1, Push 2]"

definition cursor_example :: "nat event list" where
  "cursor_example = [Values None, Values None, Next 0, Next 1, Push 5, Push 6, Settle 0, Settle 1]"

definition cancel_example :: "nat event list" where
  "cancel_example = [Values (Some 0), Next 0, Push 1, Settle 0, Push 2, Abort 0]"

definition aborted_start_example :: "nat event list" where
  "aborted_start_example = [Push 1, Abort 0, Values (Some 0)]"

section \<open>The invariant holds in every reachable state\<close>

lemma Math_min_Infinity: "Math_min xs = Infinity \<longleftrightarrow> xs = []"
  by (induction xs) (auto split: number.splits)

lemma Math_min_Num: "Math_min xs = Num m \<Longrightarrow> m \<in> set xs \<and> (\<forall>x \<in> set xs. m \<le> x)"
  by (induction xs arbitrary: m) (auto split: number.splits if_splits simp: min_def Math_min_Infinity)

lemma map_of_rebase:
  "map_of (map (\<lambda>(i, n). (i, n - (m::int))) xs) i = map_option (\<lambda>n. n - m) (map_of xs i)"
  by (induction xs) auto

lemma keys_rebase: "map fst (map (\<lambda>(i, n). (i, n - (m::int))) xs) = map fst xs"
  by (induction xs) auto

lemma trim_keys: "map fst (indices (trim b)) = map fst (indices b)"
  by (auto simp: trim_def keys_rebase Math_min_Infinity split: number.splits)

lemma trim_nextGeneratorID: "nextGeneratorID (trim b) = nextGeneratorID b"
  by (simp add: trim_def split: number.splits)

lemma trim_nextValue: "nextValue (trim b) = nextValue b"
  by (simp add: trim_def split: number.splits)

lemma wf_bc_trim: "wf_bc b \<Longrightarrow> wf_bc (trim b)"
proof (cases "Math_min (map snd (indices b))")
  case Infinity
  then have "indices b = []" by (simp add: Math_min_Infinity)
  then show ?thesis by (simp add: wf_bc_def trim_def Infinity)
next
  case (Num m)
  assume wf: "wf_bc b"
  show ?thesis
  proof (cases "m > 0")
    case False
    with Num wf show ?thesis by (simp add: trim_def)
  next
    case True
    from Math_min_Num [OF Num] obtain j where j: "(j, m) \<in> set (indices b)"
      and m_le: "\<And>i n. (i, n) \<in> set (indices b) \<Longrightarrow> m \<le> n" by force
    from wf have dist: "distinct (map fst (indices b))" by (simp add: wf_bc_def)
    from j dist have "map_of (indices b) j = Some m" by simp
    with wf have m_len: "m \<le> int (length (buffer b))" by (simp add: wf_bc_def)
    have "distinct (map fst (indices (trim b)))"
      using dist by (simp add: trim_keys)
    moreover have "0 \<le> c \<and> c \<le> int (length (buffer (trim b))) \<and> i < nextGeneratorID (trim b)"
      if "map_of (indices (trim b)) i = Some c" for i c
    proof -
      from that obtain n where n: "map_of (indices b) i = Some n" and c: "c = n - m"
        by (auto simp: trim_def Num True map_of_rebase)
      from n have "m \<le> n" by (auto dest: map_of_SomeD m_le)
      moreover from n wf have "n \<le> int (length (buffer b))" "i < nextGeneratorID b"
        by (simp_all add: wf_bc_def)
      ultimately show ?thesis using True m_len c
        by (simp add: trim_def Num)
    qed
    ultimately show ?thesis by (simp add: wf_bc_def)
  qed
qed

lemma unread_trim: "wf_bc b \<Longrightarrow> unread (trim b) i = unread b i"
proof (cases "Math_min (map snd (indices b))")
  case Infinity
  then have "indices b = []" by (simp add: Math_min_Infinity)
  then show ?thesis by (simp add: unread_def trim_def Infinity)
next
  case (Num m)
  assume wf: "wf_bc b"
  show ?thesis
  proof (cases "m > 0")
    case False
    with Num show ?thesis by (simp add: trim_def)
  next
    case True
    show ?thesis
    proof (cases "map_of (indices b) i")
      case None
      then show ?thesis by (simp add: unread_def trim_def Num True map_of_rebase)
    next
      case (Some c)
      then have "(i, c) \<in> set (indices b)" by (rule map_of_SomeD)
      then have "c \<in> set (map snd (indices b))" by force
      with Math_min_Num [OF Num] have "m \<le> c" by blast
      with True have "nat (c - m) + nat m = nat c" by simp
      then show ?thesis
        by (simp add: unread_def trim_def Num True map_of_rebase Some)
    qed
  qed
qed

lemma Math_min_rebase:
  "Math_min (map (\<lambda>n. n - m) xs) = (case Math_min xs of Infinity \<Rightarrow> Infinity | Num k \<Rightarrow> Num (k - m))"
  by (induction xs) (auto split: number.splits simp: min_def)

lemma snd_rebase: "map snd (map (\<lambda>(i, n). (i, n - (m::int))) xs) = map (\<lambda>n. n - m) (map snd xs)"
  by (induction xs) auto

lemma trim_indices_Num:
  "Math_min (map snd (indices b)) = Num m \<Longrightarrow> 0 < m \<Longrightarrow>
   indices (trim b) = map (\<lambda>(i, n). (i, n - m)) (indices b)"
  by (simp add: trim_def)

lemma trim_min_zero:
  assumes "Math_min (map snd (indices b)) = Num m" "0 < m"
  shows "Math_min (map snd (indices (trim b))) = Num 0"
  unfolding trim_indices_Num [OF assms] snd_rebase Math_min_rebase using assms by simp

lemma trim_idem: "trim (trim b) = trim b"
proof (cases "Math_min (map snd (indices b))")
  case Infinity
  then show ?thesis by (simp add: trim_def)
next
  case (Num m)
  show ?thesis
  proof (cases "m > 0")
    case True
    from trim_min_zero [OF Num True] show ?thesis
      by (simp add: trim_def [of "trim b"])
  next
    case False
    with Num show ?thesis by (simp add: trim_def)
  qed
qed

lemma cleanup_keys: "i \<notin> fst ` set (indices (cleanup i b))"
proof -
  have "map fst (indices (cleanup i b)) = map fst (AList.delete i (indices b))"
    by (simp add: cleanup_def trim_keys)
  then have "set (map fst (indices (cleanup i b))) = fst ` set (indices b) - {i}"
    by (simp add: delete_keys)
  then show ?thesis by auto
qed

lemma cleanup_idem: "cleanup i (cleanup i b) = cleanup i b"
proof -
  have "AList.delete i (indices (cleanup i b)) = indices (cleanup i b)"
    using cleanup_keys [of i b] by (simp add: delete_id)
  then have "cleanup i (cleanup i b) = trim (cleanup i b)"
    by (simp add: cleanup_def [of i "cleanup i b"])
  then show ?thesis by (simp add: cleanup_def [of i b] trim_idem)
qed

lemma world_ok_new: "world_ok (new_AsyncBroadcaster up)"
  by (simp add: world_ok_def ok5_def new_AsyncBroadcaster_def wf_bc_def)

lemma received_append: "received (rs @ [r]) = received rs @ (case r of Value v \<Rightarrow> [v] | _ \<Rightarrow> [])"
  by (induction rs rule: received.induct) (auto split: iter_result.splits)

lemma gen_ok_trim: "wf_bc b \<Longrightarrow> gen_ok b P R vs x \<Longrightarrow> gen_ok (trim b) P R vs x"
  by (auto simp: gen_ok_def unread_trim trim_nextValue trim_nextGeneratorID
      split: gstate.splits option.splits)

lemma unread_delete:
  "unread (b\<lparr>indices := AList.delete j (indices b)\<rparr>) i = (if i = j then None else unread b i)"
  by (simp add: unread_def delete_conv')

lemma unread_update:
  "unread (b\<lparr>indices := AList.update j c (indices b)\<rparr>) i =
     (if i = j then Some (drop (nat c) (buffer b)) else unread b i)"
  by (simp add: unread_def update_conv')

lemma gen_ok_delete:
  "gen_ok b P R vs x \<Longrightarrow> gid (gstate x) \<noteq> Some j \<Longrightarrow>
   gen_ok (b\<lparr>indices := AList.delete j (indices b)\<rparr>) P R vs x"
  by (auto simp: gen_ok_def unread_delete split: gstate.splits option.splits if_splits)

lemma gen_ok_update:
  "gen_ok b P R vs x \<Longrightarrow> gid (gstate x) \<noteq> Some j \<Longrightarrow>
   unread b j \<noteq> None \<or> nextGeneratorID b \<le> j \<Longrightarrow>
   gen_ok (b\<lparr>indices := AList.update j c (indices b)\<rparr>) P R vs x"
  by (auto simp: gen_ok_def unread_update split: gstate.splits option.splits if_splits)

lemma wf_bc_delete: "wf_bc b \<Longrightarrow> wf_bc (b\<lparr>indices := AList.delete j (indices b)\<rparr>)"
  by (auto simp: wf_bc_def distinct_delete delete_conv' split: if_splits)

lemma wf_bc_update:
  "wf_bc b \<Longrightarrow> 0 \<le> c \<Longrightarrow> c \<le> int (length (buffer b)) \<Longrightarrow> j < nextGeneratorID b \<Longrightarrow>
   wf_bc (b\<lparr>indices := AList.update j c (indices b)\<rparr>)"
  by (auto simp: wf_bc_def distinct_update update_conv' split: if_splits)

lemma gen_ok_cleanup:
  "wf_bc b \<Longrightarrow> gen_ok b P R vs x \<Longrightarrow> gid (gstate x) \<noteq> Some j \<Longrightarrow> gen_ok (cleanup j b) P R vs x"
  unfolding cleanup_def by (intro gen_ok_trim wf_bc_delete gen_ok_delete)

lemma wf_bc_cleanup: "wf_bc b \<Longrightarrow> wf_bc (cleanup j b)"
  unfolding cleanup_def by (intro wf_bc_trim wf_bc_delete)

lemma ok5_gid:
  assumes "ok5 b gs P R vs" "h < length gs" "gid (gstate (gs ! h)) = Some i"
  shows "unread b i \<noteq> None \<and> i < nextGeneratorID b"
proof -
  from assms have "gen_ok b P R vs (gs ! h)" by (simp add: ok5_def)
  with assms(3) have "unread b i \<noteq> None"
    by (cases "gstate (gs ! h)") (auto simp: gen_ok_def)
  moreover from assms(1) have "wf_bc b" by (simp add: ok5_def)
  ultimately show ?thesis by (auto simp: wf_bc_def unread_def)
qed

lemma ok5_gen: "ok5 b gs P R vs \<Longrightarrow> g < length gs \<Longrightarrow> gen_ok b P R vs (gs ! g)"
  by (simp add: ok5_def)

lemma received_app: "received (rs @ ss) = received rs @ received ss"
  by (induction rs rule: received.induct) simp_all

lemma ok5_actor:
  assumes ok: "ok5 b gs P R vs" and g: "g < length gs"
    and wf: "wf_bc b'"
    and nv: "\<And>p. nextValue b' = Some p \<Longrightarrow> p \<notin> R' \<and> p < P'"
    and res: "\<And>p. p \<in> R' \<Longrightarrow> p < P'"
    and others: "\<And>h. h < length gs \<Longrightarrow> h \<noteq> g \<Longrightarrow> gen_ok b P R vs (gs ! h) \<Longrightarrow>
                   gen_ok b' P' R' vs' (gs ! h)"
    and actor: "gen_ok b' P' R' vs' x'"
    and ids: "\<And>h i. h < length gs \<Longrightarrow> h \<noteq> g \<Longrightarrow> gid (gstate x') = Some i \<Longrightarrow>
                gid (gstate (gs ! h)) \<noteq> Some i"
  shows "ok5 b' (gs[g := x']) P' R' vs'"
proof -
  have gens: "gen_ok b' P' R' vs' (gs[g := x'] ! h)" if "h < length gs" for h
  proof (cases "h = g")
    case True
    with g actor show ?thesis by simp
  next
    case False
    from ok that have "gen_ok b P R vs (gs ! h)" by (simp add: ok5_def)
    from others [OF that False this] False show ?thesis by simp
  qed
  have dist: "k = h" if "k < length gs" "h < length gs"
      "gid (gstate (gs[g := x'] ! k)) = Some i" "gid (gstate (gs[g := x'] ! h)) = Some i" for k h i
  proof (cases "k = g"; cases "h = g")
    assume "k = g" "h = g" then show ?thesis by simp
  next
    assume "k = g" "h \<noteq> g"
    with that g ids [of h i] show ?thesis by simp
  next
    assume "k \<noteq> g" "h = g"
    with that g ids [of k i] show ?thesis by simp
  next
    assume "k \<noteq> g" "h \<noteq> g"
    with that ok show ?thesis unfolding ok5_def by (metis nth_list_update_neq)
  qed
  show ?thesis
    unfolding ok5_def using wf nv res gens dist by (simp (no_asm_simp))
qed

lemma unread_push:
  assumes "wf_bc b"
  shows "unread (b\<lparr>buffer := buffer b @ [v], nextValue := None\<rparr>) i = map_option (\<lambda>u. u @ [v]) (unread b i)"
proof (cases "map_of (indices b) i")
  case None
  then show ?thesis by (simp add: unread_def)
next
  case (Some c)
  with assms have "0 \<le> c" "c \<le> int (length (buffer b))" by (auto simp: wf_bc_def)
  then have "nat c \<le> length (buffer b)" by simp
  then show ?thesis by (simp add: unread_def Some)
qed

lemma sync_push: "sync vs n rs u \<Longrightarrow> sync (vs @ [v]) n rs (u @ [v])"
  by (simp add: sync_def)

lemma gen_ok_push:
  assumes wf: "wf_bc b" and ok: "gen_ok b P R vs x"
  shows "gen_ok (b\<lparr>buffer := buffer b @ [v], nextValue := None\<rparr>) P
           (case nextValue b of None \<Rightarrow> R | Some p \<Rightarrow> insert p R) (vs @ [v]) x"
proof (cases "gstate x")
  case SuspendedStart
  with ok show ?thesis by (simp add: gen_ok_def)
next
  case (AwaitNextValue i p)
  with ok obtain u n where *: "p < P" "unread b i = Some u" "joined x = Some n" "sync vs n (results x) u"
    "if p \<in> R then u \<noteq> [] else nextValue b = Some p \<and> u = []"
    by (auto simp: gen_ok_def)
  from *(5) have "p \<in> (case nextValue b of None \<Rightarrow> R | Some p \<Rightarrow> insert p R)"
    by (auto split: option.splits if_splits)
  with * show ?thesis
    by (simp add: gen_ok_def AwaitNextValue unread_push [OF wf] sync_push)
next
  case (SuspendedYield i)
  with ok show ?thesis
    by (auto simp: gen_ok_def unread_push [OF wf] sync_push)
next
  case (Completed io)
  with ok show ?thesis
    by (cases io) (auto simp: gen_ok_def unread_push [OF wf])
qed

lemma wf_bc_push: "wf_bc b \<Longrightarrow> wf_bc (b\<lparr>buffer := buffer b @ [v], nextValue := None\<rparr>)"
  by (fastforce simp: wf_bc_def)

lemma world_ok_pushAll: "world_ok w \<Longrightarrow> world_ok (pushAll v w)"
  unfolding world_ok_def ok5_def pushAll_def
  by (auto simp: wf_bc_push gen_ok_push split: option.splits)

lemma cleanup_nextValue: "nextValue (cleanup i b) = nextValue b"
  by (simp add: cleanup_def trim_nextValue)

lemma cleanup_nextGeneratorID: "nextGeneratorID (cleanup i b) = nextGeneratorID b"
  by (simp add: cleanup_def trim_nextGeneratorID)

lemma unread_cleanup:
  "wf_bc b \<Longrightarrow> unread (cleanup j b) i = (if i = j then None else unread b i)"
  by (simp add: cleanup_def unread_trim wf_bc_delete unread_delete)

lemma gen_active:
  assumes "gen_ok b P R vs x" "gid (gstate x) = Some i"
  obtains u n where "unread b i = Some u" "joined x = Some n" "sync vs n (results x) u"
  using assms by (cases "gstate x") (auto simp: gen_ok_def)

lemma world_ok_values_finally:
  assumes ok: "world_ok w" and g: "g < length (generators w)"
    and i: "gid (gstate (generators w ! g)) = Some i"
  shows "world_ok (values_finally g i w)"
proof -
  let ?b = "bc w" and ?gs = "generators w"
  let ?x = "?gs ! g"
  let ?x' = "?x\<lparr>gstate := Completed (Some i), results := results ?x @ [Done]\<rparr>"
  from ok have ok5: "ok5 ?b ?gs (promises w) (resolved w) (produced w)" by (simp add: world_ok_def)
  then have wf: "wf_bc ?b" by (simp add: ok5_def)
  from ok5 g have "gen_ok ?b (promises w) (resolved w) (produced w) ?x" by (simp add: ok5_def)
  from gen_active [OF this i] obtain u n where
    act: "unread ?b i = Some u" "joined ?x = Some n" "sync (produced w) n (results ?x) u" .
  from ok5_gid [OF ok5 g i] have lt: "i < nextGeneratorID ?b" by simp
  have "ok5 (cleanup i ?b) (?gs[g := ?x']) (promises w) (resolved w) (produced w)"
  proof (rule ok5_actor [OF ok5 g])
    show "wf_bc (cleanup i ?b)" using wf by (rule wf_bc_cleanup)
    show "p \<notin> resolved w \<and> p < promises w" if "nextValue (cleanup i ?b) = Some p" for p
      using that ok5 by (simp add: cleanup_nextValue ok5_def)
    show "p < promises w" if "p \<in> resolved w" for p using that ok5 by (simp add: ok5_def)
    show "gen_ok (cleanup i ?b) (promises w) (resolved w) (produced w) (?gs ! h)"
      if "h < length ?gs" "h \<noteq> g" "gen_ok ?b (promises w) (resolved w) (produced w) (?gs ! h)" for h
    proof -
      from ok5 that g i have "gid (gstate (?gs ! h)) \<noteq> Some i" unfolding ok5_def by blast
      with that wf show ?thesis by (intro gen_ok_cleanup)
    qed
    show "gen_ok (cleanup i ?b) (promises w) (resolved w) (produced w) ?x'"
      using act lt wf by (auto simp: gen_ok_def unread_cleanup cleanup_nextGeneratorID received_append sync_def)
    show "gid (gstate (?gs ! h)) \<noteq> Some j" if "gid (gstate ?x') = Some j" for h j
      using that by simp
  qed
  then show ?thesis by (simp add: world_ok_def values_finally_def Let_def)
qed

lemma world_ok_values_yield:
  assumes ok: "world_ok w" and g: "g < length (generators w)"
    and i: "gid (gstate (generators w ! g)) = Some i"
    and c: "map_of (indices (bc w)) i = Some c" and ne: "c \<noteq> int (length (buffer (bc w)))"
  shows "world_ok (values_yield g i c w)"
proof -
  let ?b = "bc w" and ?gs = "generators w"
  let ?x = "?gs ! g"
  let ?b1 = "?b\<lparr>indices := AList.update i (c + 1) (indices ?b)\<rparr>"
  let ?x' = "?x\<lparr>gstate := SuspendedYield i, results := results ?x @ [Value (Some (buffer ?b ! nat c))]\<rparr>"
  from ok have ok5: "ok5 ?b ?gs (promises w) (resolved w) (produced w)" by (simp add: world_ok_def)
  then have wf: "wf_bc ?b" by (simp add: ok5_def)
  from wf c have "0 \<le> c \<and> c \<le> int (length (buffer ?b)) \<and> i < nextGeneratorID ?b"
    unfolding wf_bc_def by blast
  with ne have bounds: "0 \<le> c" "c < int (length (buffer ?b))" "i < nextGeneratorID ?b"
    by simp_all
  from ok5 g have "gen_ok ?b (promises w) (resolved w) (produced w) ?x" by (simp add: ok5_def)
  from gen_active [OF this i] obtain u n where
    act: "unread ?b i = Some u" "joined ?x = Some n" "sync (produced w) n (results ?x) u" .
  from act(1) c have u: "u = drop (nat c) (buffer ?b)" by (simp add: unread_def)
  from bounds have split: "drop (nat c) (buffer ?b) = buffer ?b ! nat c # drop (nat (c + 1)) (buffer ?b)"
    by (simp add: Cons_nth_drop_Suc nat_add_distrib)
  from bounds wf have wf1: "wf_bc ?b1" by (intro wf_bc_update) simp_all
  have "ok5 (trim ?b1) (?gs[g := ?x']) (promises w) (resolved w) (produced w)"
  proof (rule ok5_actor [OF ok5 g])
    show "wf_bc (trim ?b1)" using wf1 by (rule wf_bc_trim)
    show "p \<notin> resolved w \<and> p < promises w" if "nextValue (trim ?b1) = Some p" for p
      using that ok5 by (simp add: trim_nextValue ok5_def)
    show "p < promises w" if "p \<in> resolved w" for p using that ok5 by (simp add: ok5_def)
    show "gen_ok (trim ?b1) (promises w) (resolved w) (produced w) (?gs ! h)"
      if "h < length ?gs" "h \<noteq> g" "gen_ok ?b (promises w) (resolved w) (produced w) (?gs ! h)" for h
    proof -
      from ok5 that g i have "gid (gstate (?gs ! h)) \<noteq> Some i" unfolding ok5_def by blast
      with that act(1) have "gen_ok ?b1 (promises w) (resolved w) (produced w) (?gs ! h)"
        by (intro gen_ok_update) simp_all
      with wf1 show ?thesis by (rule gen_ok_trim)
    qed
    show "gen_ok (trim ?b1) (promises w) (resolved w) (produced w) ?x'"
      using act(2,3) u split
      by (simp add: gen_ok_def unread_trim [OF wf1] unread_update received_append sync_def)
    show "gid (gstate (?gs ! h)) \<noteq> Some j"
      if "h < length ?gs" "h \<noteq> g" "gid (gstate ?x') = Some j" for h j
      using ok5 that g i unfolding ok5_def by auto
  qed
  then show ?thesis using bounds by (simp add: world_ok_def values_yield_def Let_def)
qed

lemma wf_bc_nextValue [simp]: "wf_bc (b\<lparr>nextValue := q\<rparr>) = wf_bc b"
  by (simp add: wf_bc_def)

lemma unread_nextValue [simp]: "unread (b\<lparr>nextValue := q\<rparr>) i = unread b i"
  by (simp add: unread_def)

lemma gen_ok_new_promise:
  "gen_ok b P R vs y \<Longrightarrow> nextValue b = None \<Longrightarrow> gen_ok (b\<lparr>nextValue := Some P\<rparr>) (Suc P) R vs y"
  by (cases "gstate y") (auto simp: gen_ok_def split: option.splits if_splits)

lemma world_ok_values_loop:
  assumes ok: "world_ok w" and g: "g < length (generators w)"
    and i: "gid (gstate (generators w ! g)) = Some i"
  shows "\<exists>w'. values_loop g i w = Inr w' \<and> world_ok w'"
proof -
  let ?b = "bc w" and ?gs = "generators w"
  let ?x = "?gs ! g"
  from ok have ok5: "ok5 ?b ?gs (promises w) (resolved w) (produced w)" by (simp add: world_ok_def)
  then have wf: "wf_bc ?b" by (simp add: ok5_def)
  from ok5 g have "gen_ok ?b (promises w) (resolved w) (produced w) ?x" by (simp add: ok5_def)
  from gen_active [OF this i] obtain u n where
    act: "unread ?b i = Some u" "joined ?x = Some n" "sync (produced w) n (results ?x) u" .
  from act(1) obtain c where c: "map_of (indices ?b) i = Some c" and u: "u = drop (nat c) (buffer ?b)"
    by (auto simp: unread_def)
  have others_id: "gid (gstate (?gs ! h)) \<noteq> Some i" if "h < length ?gs" "h \<noteq> g" for h
    using ok5 that g i unfolding ok5_def by blast
  show ?thesis
  proof (cases "signal_aborted w ?x")
    case True
    with world_ok_values_finally [OF ok g i] show ?thesis by (simp add: values_loop_def)
  next
    case False
    show ?thesis
    proof (cases "c = int (length (buffer ?b))")
      case neq: False
      with world_ok_values_yield [OF ok g i c] False c show ?thesis by (simp add: values_loop_def)
    next
      case eq: True
      with u have u_nil: "u = []" by simp
      show ?thesis
      proof (cases "nextValue ?b")
        case (Some p)
        let ?x' = "?x\<lparr>gstate := AwaitNextValue i p\<rparr>"
        from ok5 Some have p: "p \<notin> resolved w" "p < promises w" by (simp_all add: ok5_def)
        have "ok5 ?b (?gs[g := ?x']) (promises w) (resolved w) (produced w)"
        proof (rule ok5_actor [OF ok5 g])
          show "wf_bc ?b" by (rule wf)
          show "q \<notin> resolved w \<and> q < promises w" if "nextValue ?b = Some q" for q
            using that ok5 by (simp add: ok5_def)
          show "q < promises w" if "q \<in> resolved w" for q using that ok5 by (simp add: ok5_def)
          show "gen_ok ?b (promises w) (resolved w) (produced w) ?x'"
            using act u_nil p Some by (simp add: gen_ok_def)
          show "gid (gstate (?gs ! h)) \<noteq> Some j"
            if "h < length ?gs" "h \<noteq> g" "gid (gstate ?x') = Some j" for h j
            using others_id that by simp
        qed
        then have "world_ok (w\<lparr>generators := ?gs[g := ?x']\<rparr>)" by (simp add: world_ok_def)
        with False c eq Some show ?thesis by (simp add: values_loop_def values_wait_def)
      next
        case None
        let ?x' = "?x\<lparr>gstate := AwaitNextValue i (promises w)\<rparr>"
        from ok5 have fresh: "promises w \<notin> resolved w" by (auto simp: ok5_def)
        have "ok5 (?b\<lparr>nextValue := Some (promises w)\<rparr>) (?gs[g := ?x']) (Suc (promises w)) (resolved w) (produced w)"
        proof (rule ok5_actor [OF ok5 g])
          show "wf_bc (?b\<lparr>nextValue := Some (promises w)\<rparr>)" using wf by simp
          show "q \<notin> resolved w \<and> q < Suc (promises w)"
            if "nextValue (?b\<lparr>nextValue := Some (promises w)\<rparr>) = Some q" for q
            using that fresh by auto
          show "q < Suc (promises w)" if "q \<in> resolved w" for q using that ok5 by (auto simp: ok5_def)
          show "gen_ok (?b\<lparr>nextValue := Some (promises w)\<rparr>) (Suc (promises w)) (resolved w) (produced w) (?gs ! h)"
            if "gen_ok ?b (promises w) (resolved w) (produced w) (?gs ! h)" for h
            using that None by (rule gen_ok_new_promise)
          show "gen_ok (?b\<lparr>nextValue := Some (promises w)\<rparr>) (Suc (promises w)) (resolved w) (produced w) ?x'"
            using act u_nil fresh by (simp add: gen_ok_def)
          show "gid (gstate (?gs ! h)) \<noteq> Some j"
            if "h < length ?gs" "h \<noteq> g" "gid (gstate ?x') = Some j" for h j
            using others_id that by simp
        qed
        then have "world_ok (w\<lparr>bc := ?b\<lparr>nextValue := Some (promises w)\<rparr>, promises := promises w + 1,
            generators := ?gs[g := ?x']\<rparr>)" by (simp add: world_ok_def)
        with False c eq None show ?thesis by (simp add: values_loop_def values_wait_def)
      qed
    qed
  qed
qed

lemma values_loop_gstate:
  "g < length (generators w) \<Longrightarrow>
   values_loop g i (w\<lparr>generators := (generators w)[g := (generators w ! g)\<lparr>gstate := st\<rparr>]\<rparr>) =
   values_loop g i w"
  by (simp add: values_loop_def values_wait_def values_finally_def values_yield_def
      signal_aborted_def Let_def cong: option.case_cong if_cong)

lemma unread_register:
  "unread (b\<lparr>nextGeneratorID := k, indices := AList.update j c (indices b)\<rparr>) i =
     (if i = j then Some (drop (nat c) (buffer b)) else unread b i)"
  by (simp add: unread_def update_conv')

lemma world_ok_values_start:
  assumes ok: "world_ok w" and g: "g < length (generators w)"
    and st: "gstate (generators w ! g) = SuspendedStart"
  shows "\<exists>w'. values_start g w = Inr w' \<and> world_ok w'"
proof -
  let ?b = "bc w" and ?gs = "generators w"
  let ?x = "?gs ! g"
  let ?i = "nextGeneratorID ?b"
  let ?b1 = "?b\<lparr>nextGeneratorID := ?i + 1, indices := AList.update ?i (int (length (buffer ?b))) (indices ?b)\<rparr>"
  let ?x1 = "?x\<lparr>joined := Some (length (produced w))\<rparr>"
  let ?w1 = "w\<lparr>bc := ?b1, generators := ?gs[g := ?x1]\<rparr>"
  let ?x2 = "?x1\<lparr>gstate := SuspendedYield ?i\<rparr>"
  let ?w2 = "?w1\<lparr>generators := (generators ?w1)[g := (generators ?w1 ! g)\<lparr>gstate := SuspendedYield ?i\<rparr>]\<rparr>"
  from ok have ok5: "ok5 ?b ?gs (promises w) (resolved w) (produced w)" by (simp add: world_ok_def)
  then have wf: "wf_bc ?b" by (simp add: ok5_def)
  from ok5_gen [OF ok5 g] st have x: "results ?x = []" by (simp add: gen_ok_def)
  have others_id: "gid (gstate (?gs ! h)) \<noteq> Some ?i" if "h < length ?gs" for h
    using ok5_gid [OF ok5 that, of ?i] by auto
  have wf1: "wf_bc ?b1"
  proof -
    have "0 \<le> c \<and> c \<le> int (length (buffer ?b1)) \<and> j < nextGeneratorID ?b1"
      if "map_of (indices ?b1) j = Some c" for j c
    proof (cases "j = ?i")
      case True
      with that show ?thesis by (simp add: update_conv')
    next
      case False
      with that have "map_of (indices ?b) j = Some c" by (simp add: update_conv')
      with wf have "0 \<le> c \<and> c \<le> int (length (buffer ?b)) \<and> j < ?i"
        unfolding wf_bc_def by blast
      then show ?thesis by simp
    qed
    moreover from wf have "distinct (map fst (indices ?b1))"
      by (simp add: wf_bc_def distinct_update)
    ultimately show ?thesis unfolding wf_bc_def by blast
  qed
  have "ok5 ?b1 (?gs[g := ?x2]) (promises w) (resolved w) (produced w)"
  proof (rule ok5_actor [OF ok5 g])
    show "wf_bc ?b1" by (rule wf1)
    show "q \<notin> resolved w \<and> q < promises w" if "nextValue ?b1 = Some q" for q
      using that ok5 by (simp add: ok5_def)
    show "q < promises w" if "q \<in> resolved w" for q using that ok5 by (simp add: ok5_def)
    show "gen_ok ?b1 (promises w) (resolved w) (produced w) (?gs ! h)"
      if "h < length ?gs" "gen_ok ?b (promises w) (resolved w) (produced w) (?gs ! h)" for h
      using that(2) others_id [OF that(1)]
      by (cases "gstate (?gs ! h)") (auto simp: gen_ok_def unread_register split: option.splits)
    show "gen_ok ?b1 (promises w) (resolved w) (produced w) ?x2"
      using x by (simp add: gen_ok_def unread_register sync_def)
    show "gid (gstate (?gs ! h)) \<noteq> Some j"
      if "h < length ?gs" "gid (gstate ?x2) = Some j" for h j
      using others_id [OF that(1)] that(2) by simp
  qed
  then have ok2: "world_ok ?w2" using g by (simp add: world_ok_def)
  have g2: "g < length (generators ?w2)" using g by simp
  have i2: "gid (gstate (generators ?w2 ! g)) = Some ?i" using g by simp
  have "values_start g w = values_loop g ?i ?w1"
    by (simp add: values_start_def values_register_def Let_def)
  also have "\<dots> = values_loop g ?i ?w2" using g by (subst values_loop_gstate) simp_all
  finally show ?thesis using world_ok_values_loop [OF ok2 g2 i2] by simp
qed

lemma values_finally_cleanup:
  "values_finally g i (w\<lparr>bc := cleanup i (bc w)\<rparr>) = values_finally g i w"
  by (simp add: values_finally_def cleanup_idem)

lemma world_ok_values_resume:
  assumes ok: "world_ok w" and g: "g < length (generators w)"
    and st: "gstate (generators w ! g) = AwaitNextValue i p"
    and w': "values_resume g i p w = Inr w'"
  shows "world_ok w'"
proof -
  let ?b = "bc w" and ?gs = "generators w"
  let ?x = "?gs ! g"
  from st have i: "gid (gstate ?x) = Some i" by simp
  from ok have ok5: "ok5 ?b ?gs (promises w) (resolved w) (produced w)" by (simp add: world_ok_def)
  show ?thesis
  proof (cases "signal_aborted w ?x")
    case True
    with w' world_ok_values_finally [OF ok g i] show ?thesis
      by (simp add: values_resume_def values_finally_cleanup)
  next
    case False
    with w' have p: "p \<in> resolved w" by (auto simp: values_resume_def split: if_splits)
    from ok5_gen [OF ok5 g] st p obtain u where u: "unread ?b i = Some u" "u \<noteq> []"
      by (auto simp: gen_ok_def)
    then obtain c where c: "map_of (indices ?b) i = Some c" and "drop (nat c) (buffer ?b) \<noteq> []"
      by (auto simp: unread_def)
    then have "c \<noteq> int (length (buffer ?b))" by auto
    from world_ok_values_yield [OF ok g i c this] w' False p c show ?thesis
      by (simp add: values_resume_def)
  qed
qed

lemma values_resume_no_fault:
  assumes ok: "world_ok w" and g: "g < length (generators w)"
    and st: "gstate (generators w ! g) = AwaitNextValue i p"
  shows "values_resume g i p w \<noteq> Inl NonNullAssertion"
proof -
  from ok have ok5: "ok5 (bc w) (generators w) (promises w) (resolved w) (produced w)" by (simp add: world_ok_def)
  from ok5_gen [OF ok5 g] st have "unread (bc w) i \<noteq> None" by (auto simp: gen_ok_def)
  then show ?thesis by (auto simp: values_resume_def unread_def)
qed

lemma world_ok_answer:
  assumes ok: "world_ok w" and g: "g < length (generators w)"
    and r: "received [r] = []"
    and st: "gstate (generators w ! g) = SuspendedStart \<and> st = Completed None \<or>
             gstate (generators w ! g) = st \<and> (\<exists>io. st = Completed io)"
  shows "world_ok (answer g st r w)"
proof -
  let ?b = "bc w" and ?gs = "generators w"
  let ?x = "?gs ! g"
  let ?x' = "?x\<lparr>gstate := st, results := results ?x @ [r]\<rparr>"
  from ok have ok5: "ok5 ?b ?gs (promises w) (resolved w) (produced w)" by (simp add: world_ok_def)
  from ok5 g have x: "gen_ok ?b (promises w) (resolved w) (produced w) ?x" by (simp add: ok5_def)
  from r have rec: "received (results ?x @ [r]) = received (results ?x)"
    by (simp add: received_app)
  have "ok5 ?b (?gs[g := ?x']) (promises w) (resolved w) (produced w)"
  proof (rule ok5_actor [OF ok5 g])
    show "wf_bc ?b" using ok5 by (simp add: ok5_def)
    show "q \<notin> resolved w \<and> q < promises w" if "nextValue ?b = Some q" for q
      using that ok5 by (simp add: ok5_def)
    show "q < promises w" if "q \<in> resolved w" for q using that ok5 by (simp add: ok5_def)
    show "gen_ok ?b (promises w) (resolved w) (produced w) ?x'"
      using st x rec by (auto simp: gen_ok_def split: option.splits)
    show "gid (gstate (?gs ! h)) \<noteq> Some j" if "gid (gstate ?x') = Some j" for h j
      using that st by auto
  qed
  then show ?thesis by (simp add: world_ok_def answer_def Let_def)
qed

lemma world_ok_Values:
  assumes ok: "world_ok w"
  shows "world_ok (w\<lparr>generators := generators w @
            [\<lparr>signal = sg, gstate = SuspendedStart, results = [], joined = None\<rparr>]\<rparr>)"
proof -
  let ?gs = "generators w"
  let ?new = "\<lparr>signal = sg, gstate = SuspendedStart, results = ([] :: 'a iter_result list), joined = None\<rparr>"
  from ok have ok5: "ok5 (bc w) ?gs (promises w) (resolved w) (produced w)" by (simp add: world_ok_def)
  have nth: "(?gs @ [?new]) ! h = ?gs ! h" if "h < length ?gs" for h
    using that by (simp add: nth_append)
  have last: "(?gs @ [?new]) ! length ?gs = ?new" by simp
  have gens: "gen_ok (bc w) (promises w) (resolved w) (produced w) ((?gs @ [?new]) ! h)"
    if "h < length (?gs @ [?new])" for h
  proof (cases "h < length ?gs")
    case True
    with ok5_gen [OF ok5 True] show ?thesis by (simp add: nth)
  next
    case False
    with that have "h = length ?gs" by simp
    then show ?thesis by (simp add: gen_ok_def)
  qed
  have active: "h < length ?gs" if "h < length (?gs @ [?new])"
    "gid (gstate ((?gs @ [?new]) ! h)) = Some i" for h i
  proof (rule ccontr)
    assume "\<not> h < length ?gs"
    with that(1) have "h = length ?gs" by simp
    with that(2) show False by simp
  qed
  have dist: "k = h" if "k < length (?gs @ [?new])" "h < length (?gs @ [?new])"
    "gid (gstate ((?gs @ [?new]) ! k)) = Some i" "gid (gstate ((?gs @ [?new]) ! h)) = Some i" for k h i
  proof -
    from active that have k: "k < length ?gs" and h: "h < length ?gs" by blast+
    with that(3,4) have "gid (gstate (?gs ! k)) = Some i" "gid (gstate (?gs ! h)) = Some i"
      by (simp_all add: nth)
    with ok5 k h show ?thesis unfolding ok5_def by blast
  qed
  have "ok5 (bc w) (?gs @ [?new]) (promises w) (resolved w) (produced w)"
    unfolding ok5_def using ok5 gens dist by (simp (no_asm_simp) add: ok5_def) (simp add: ok5_def)
  then show ?thesis by (simp add: world_ok_def)
qed

lemma world_ok_frame:
  "world_ok w \<Longrightarrow> bc w' = bc w \<Longrightarrow> generators w' = generators w \<Longrightarrow>
   promises w' = promises w \<Longrightarrow> resolved w' = resolved w \<Longrightarrow> produced w' = produced w \<Longrightarrow>
   world_ok w'"
  by (simp add: world_ok_def)

lemma world_ok_step:
  assumes ok: "world_ok w" and st: "step e w = Inr w'"
  shows "world_ok w'"
proof (cases e)
  case (Push v)
  with st ok show ?thesis by (auto simp: world_ok_pushAll split: if_splits)
next
  case UpstreamEnd
  with st ok show ?thesis by (auto elim: world_ok_frame split: if_splits)
next
  case (Values sg)
  with st world_ok_Values [OF ok, of sg] show ?thesis by auto
next
  case (Abort s)
  with st ok show ?thesis by (auto elim: world_ok_frame)
next
  case (Next g)
  with st have g: "g < length (generators w)" by (auto split: if_splits)
  show ?thesis
  proof (cases "gstate (generators w ! g)")
    case SuspendedStart
    with world_ok_values_start [OF ok g] st Next g show ?thesis by auto
  next
    case (AwaitNextValue i p)
    with st Next g show ?thesis by simp
  next
    case (SuspendedYield i)
    with world_ok_values_loop [OF ok g, of i] st Next g show ?thesis by auto
  next
    case (Completed io)
    with world_ok_answer [OF ok g, of Done "Completed io"] st Next g show ?thesis by auto
  qed
next
  case (Return g)
  with st have g: "g < length (generators w)" by (auto split: if_splits)
  show ?thesis
  proof (cases "gstate (generators w ! g)")
    case SuspendedStart
    with world_ok_answer [OF ok g, of Done "Completed None"] st Return g show ?thesis by auto
  next
    case (AwaitNextValue i p)
    with st Return g show ?thesis by simp
  next
    case (SuspendedYield i)
    with world_ok_values_finally [OF ok g, of i] st Return g show ?thesis by auto
  next
    case (Completed io)
    with world_ok_answer [OF ok g, of Done "Completed io"] st Return g show ?thesis by auto
  qed
next
  case (Throw g)
  with st have g: "g < length (generators w)" by (auto split: if_splits)
  show ?thesis
  proof (cases "gstate (generators w ! g)")
    case SuspendedStart
    with world_ok_answer [OF ok g, of Rejected "Completed None"] st Throw g show ?thesis by auto
  next
    case (AwaitNextValue i p)
    with st Throw g show ?thesis by simp
  next
    case (SuspendedYield i)
    with world_ok_values_finally [OF ok g, of i] st Throw g show ?thesis by auto
  next
    case (Completed io)
    with world_ok_answer [OF ok g, of Rejected "Completed io"] st Throw g show ?thesis by auto
  qed
next
  case (Settle g)
  with st have g: "g < length (generators w)" by (auto split: if_splits)
  show ?thesis
  proof (cases "gstate (generators w ! g)")
    case (AwaitNextValue i p)
    with world_ok_values_resume [OF ok g AwaitNextValue] st Settle g show ?thesis by auto
  qed (use st Settle g in simp_all)
qed

lemma world_ok_run: "world_ok w \<Longrightarrow> run es w = Inr w' \<Longrightarrow> world_ok w'"
  by (induction es arbitrary: w) (auto split: sum.splits dest: world_ok_step)

lemma reachable_ok: "run es (new_AsyncBroadcaster up) = Inr w \<Longrightarrow> world_ok w"
  using world_ok_new by (rule world_ok_run)

lemma step_no_fault:
  assumes ok: "world_ok w"
  shows "step e w \<noteq> Inl NonNullAssertion"
proof (cases e)
  case (Next g)
  show ?thesis
  proof (cases "g < length (generators w)")
    case g: True
    show ?thesis
    proof (cases "gstate (generators w ! g)")
      case SuspendedStart
      with world_ok_values_start [OF ok g] Next g show ?thesis by auto
    next
      case (SuspendedYield i)
      with world_ok_values_loop [OF ok g, of i] Next g show ?thesis by auto
    qed (use Next g in simp_all)
  qed (use Next in simp)
next
  case (Settle g)
  show ?thesis
  proof (cases "g < length (generators w)")
    case g: True
    show ?thesis
    proof (cases "gstate (generators w ! g)")
      case (AwaitNextValue i p)
      with values_resume_no_fault [OF ok g AwaitNextValue] Settle g show ?thesis by simp
    qed (use Settle g in simp_all)
  qed (use Settle in simp)
next
  case (Return g)
  then show ?thesis by (auto split: gstate.splits)
next
  case (Throw g)
  then show ?thesis by (auto split: gstate.splits)
qed simp_all

section \<open>The steps, case by case\<close>

text \<open>
  Every step is one of ten: the four events that run no line of \<^verbatim>\<open>_values\<close>, a request
  answered without running the body, and the runs of the body, which end in the
  \<^verbatim>\<open>finally\<close> block, at the \<^verbatim>\<open>await\<close> or at the \<^verbatim>\<open>yield\<close>.
\<close>

lemma signal_aborted_register:
  "g < length (generators w) \<Longrightarrow>
   signal_aborted (values_register g w) (generators (values_register g w) ! g) =
   signal_aborted w (generators w ! g)"
  by (simp add: values_register_def signal_aborted_def Let_def split: option.splits)

lemma values_start_eq:
  assumes "g < length (generators w)"
  shows "values_start g w =
     Inr (if signal_aborted w (generators w ! g)
          then values_finally g (nextGeneratorID (bc w)) (values_register g w)
          else values_wait g (nextGeneratorID (bc w)) (values_register g w))"
proof -
  have "map_of (indices (bc (values_register g w))) (nextGeneratorID (bc w)) =
      Some (int (length (buffer (bc (values_register g w)))))"
    by (simp add: values_register_def Let_def update_conv')
  then show ?thesis
    by (simp add: values_start_def values_loop_def signal_aborted_register [OF assms])
qed

lemma step_flat [consumes 1, case_names Push End Values Abort Answer StartAbort StartWait
    Finally Wait Yield]:
  assumes "step e w = Inr w'"
  obtains
    (Push) v where "e = Push v" "pushing w" "w' = pushAll v w"
  | (End) "e = UpstreamEnd" "pushing w" "w' = w\<lparr>pushing := False\<rparr>"
  | (Values) sg where "e = Values sg"
      "w' = w\<lparr>generators := generators w @
               [\<lparr>signal = sg, gstate = SuspendedStart, results = [], joined = None\<rparr>]\<rparr>"
  | (Abort) s where "e = Abort s" "w' = w\<lparr>aborted := insert s (aborted w)\<rparr>"
  | (Answer) g st r where "g < length (generators w)" "e = Next g \<or> e = Return g \<or> e = Throw g"
      "received [r] = []"
      "gstate (generators w ! g) = SuspendedStart \<and> st = Completed None \<and> e \<noteq> Next g \<or>
       gstate (generators w ! g) = st \<and> (\<exists>io. st = Completed io)"
      "w' = answer g st r w"
  | (StartAbort) g where "g < length (generators w)" "e = Next g"
      "gstate (generators w ! g) = SuspendedStart" "signal_aborted w (generators w ! g)"
      "w' = values_finally g (nextGeneratorID (bc w)) (values_register g w)"
  | (StartWait) g where "g < length (generators w)" "e = Next g"
      "gstate (generators w ! g) = SuspendedStart" "\<not> signal_aborted w (generators w ! g)"
      "w' = values_wait g (nextGeneratorID (bc w)) (values_register g w)"
  | (Finally) g i where "g < length (generators w)" "gid (gstate (generators w ! g)) = Some i"
      "e = Return g \<or> e = Throw g \<or>
       signal_aborted w (generators w ! g) \<and> (e = Next g \<or> e = Settle g)"
      "e = Settle g \<or> gstate (generators w ! g) = SuspendedYield i"
      "w' = values_finally g i w"
  | (Wait) g i where "g < length (generators w)" "e = Next g"
      "gstate (generators w ! g) = SuspendedYield i" "\<not> signal_aborted w (generators w ! g)"
      "map_of (indices (bc w)) i = Some (int (length (buffer (bc w))))"
      "w' = values_wait g i w"
  | (Yield) g i c where "g < length (generators w)" "gid (gstate (generators w ! g)) = Some i"
      "\<not> signal_aborted w (generators w ! g)" "map_of (indices (bc w)) i = Some c"
      "e = Next g \<and> gstate (generators w ! g) = SuspendedYield i \<and> c \<noteq> int (length (buffer (bc w))) \<or>
       e = Settle g \<and> (\<exists>p. gstate (generators w ! g) = AwaitNextValue i p \<and> p \<in> resolved w)"
      "w' = values_yield g i c w"
proof (cases e)
  case (Push v)
  with assms that(1) show ?thesis by (auto split: if_splits)
next
  case UpstreamEnd
  with assms that(2) show ?thesis by (auto split: if_splits)
next
  case (Values sg)
  with assms that(3) show ?thesis by auto
next
  case (Abort s)
  with assms that(4) show ?thesis by auto
next
  case (Next g)
  with assms have g: "g < length (generators w)" by (auto split: if_splits)
  show ?thesis
  proof (cases "gstate (generators w ! g)")
    case SuspendedStart
    with assms Next g values_start_eq [OF g] that(6) [of g] that(7) [of g] show ?thesis
      by (auto split: if_splits)
  next
    case (AwaitNextValue i p)
    with assms Next g show ?thesis by simp
  next
    case (SuspendedYield i)
    with assms Next g that(8) [of g i] that(9) [of g i] that(10) [of g i] show ?thesis
      by (auto simp: values_loop_def split: if_splits option.splits)
  next
    case (Completed io)
    with assms Next g that(5) [of g Done "Completed io"] show ?thesis by auto
  qed
next
  case (Return g)
  with assms have g: "g < length (generators w)" by (auto split: if_splits)
  show ?thesis
  proof (cases "gstate (generators w ! g)")
    case SuspendedStart
    with assms Return g that(5) [of g Done "Completed None"] show ?thesis by auto
  next
    case (AwaitNextValue i p)
    with assms Return g show ?thesis by simp
  next
    case (SuspendedYield i)
    with assms Return g that(8) [of g i] show ?thesis by auto
  next
    case (Completed io)
    with assms Return g that(5) [of g Done "Completed io"] show ?thesis by auto
  qed
next
  case (Throw g)
  with assms have g: "g < length (generators w)" by (auto split: if_splits)
  show ?thesis
  proof (cases "gstate (generators w ! g)")
    case SuspendedStart
    with assms Throw g that(5) [of g Rejected "Completed None"] show ?thesis by auto
  next
    case (AwaitNextValue i p)
    with assms Throw g show ?thesis by simp
  next
    case (SuspendedYield i)
    with assms Throw g that(8) [of g i] show ?thesis by auto
  next
    case (Completed io)
    with assms Throw g that(5) [of g Rejected "Completed io"] show ?thesis by auto
  qed
next
  case (Settle g)
  with assms have g: "g < length (generators w)" by (auto split: if_splits)
  show ?thesis
  proof (cases "gstate (generators w ! g)")
    case (AwaitNextValue i p)
    with assms Settle g that(8) [of g i] that(10) [of g i] show ?thesis
      by (auto simp: values_resume_def values_finally_cleanup split: if_splits option.splits)
  qed (use assms Settle g in simp_all)
qed

lemmas result_defs =
  pushAll_def values_finally_def values_yield_def values_wait_def values_register_def
  answer_def Let_def

lemma step_frame:
  assumes "step e w = Inr w'" and "h < length (generators w)"
  shows "h < length (generators w') \<and>
         signal (generators w' ! h) = signal (generators w ! h) \<and>
         (gstate (generators w ! h) \<noteq> SuspendedStart \<longrightarrow>
            gstate (generators w' ! h) \<noteq> SuspendedStart \<and>
            joined (generators w' ! h) = joined (generators w ! h)) \<and>
         (\<forall>io. gstate (generators w ! h) = Completed io \<longrightarrow>
            gstate (generators w' ! h) = Completed io) \<and>
         aborted w \<subseteq> aborted w' \<and>
         produced w' = produced w @ pushed e \<and>
         (pushing w' \<longrightarrow> pushing w) \<and>
         (\<not> pushing w \<longrightarrow> resolved w' = resolved w)"
  using assms
  by (cases rule: step_flat)
    (auto simp: result_defs nth_list_update nth_append split: option.splits)

lemma step_aborted:
  assumes "step e w = Inr w'" and "h < length (generators w)"
    and "signal_aborted w (generators w ! h)"
  shows "signal_aborted w' (generators w' ! h) \<and>
         received (results (generators w' ! h)) = received (results (generators w ! h))"
  using assms
  by (cases rule: step_flat)
    (auto simp: result_defs signal_aborted_def received_app nth_list_update nth_append
      split: option.splits)

lemma step_waiting:
  assumes "step e w = Inr w'" and "h < length (generators w)"
    and "gstate (generators w ! h) = AwaitNextValue i p"
  shows "generators w' ! h = generators w ! h \<or>
         e = Settle h \<and> (signal_aborted w (generators w ! h) \<or> p \<in> resolved w)"
  using assms
  by (cases rule: step_flat)
    (auto simp: result_defs nth_list_update nth_append split: option.splits)

lemma run_append: "run (es @ fs) w = (case run es w of Inl err \<Rightarrow> Inl err | Inr w' \<Rightarrow> run fs w')"
  by (induction es arbitrary: w) (auto split: sum.splits)

lemma run_frame:
  assumes "run es w = Inr w'" and "h < length (generators w)"
  shows "h < length (generators w') \<and>
         signal (generators w' ! h) = signal (generators w ! h) \<and>
         (gstate (generators w ! h) \<noteq> SuspendedStart \<longrightarrow>
            gstate (generators w' ! h) \<noteq> SuspendedStart \<and>
            joined (generators w' ! h) = joined (generators w ! h)) \<and>
         (\<forall>io. gstate (generators w ! h) = Completed io \<longrightarrow>
            gstate (generators w' ! h) = Completed io) \<and>
         produced w' = produced w @ upstream es"
  using assms
proof (induction es arbitrary: w)
  case Nil
  then show ?case by (simp add: upstream_def)
next
  case (Cons e es)
  from Cons.prems obtain w1 where 1: "step e w = Inr w1" and 2: "run es w1 = Inr w'"
    by (auto split: sum.splits)
  from step_frame [OF 1 Cons.prems(2)] Cons.IH [OF 2] show ?case
    by (auto simp: upstream_def)
qed

lemma run_aborted:
  assumes "run es w = Inr w'" and "h < length (generators w)"
    and "signal_aborted w (generators w ! h)"
  shows "signal_aborted w' (generators w' ! h) \<and>
         received (results (generators w' ! h)) = received (results (generators w ! h))"
  using assms
proof (induction es arbitrary: w)
  case Nil
  then show ?case by simp
next
  case (Cons e es)
  from Cons.prems obtain w1 where 1: "step e w = Inr w1" and 2: "run es w1 = Inr w'"
    by (auto split: sum.splits)
  from step_frame [OF 1 Cons.prems(2)] have h: "h < length (generators w1)" by simp
  from step_aborted [OF 1 Cons.prems(2,3)] Cons.IH [OF 2 h] show ?case by simp
qed

lemma run_waiting:
  assumes "run es w = Inr w'" and "h < length (generators w)"
    and "gstate (generators w ! h) = AwaitNextValue i p"
    and "\<not> pushing w" and "p \<notin> resolved w"
    and "\<not> signal_aborted w' (generators w' ! h)"
  shows "generators w' ! h = generators w ! h"
  using assms
proof (induction es arbitrary: w)
  case Nil
  then show ?case by simp
next
  case (Cons e es)
  from Cons.prems obtain w1 where 1: "step e w = Inr w1" and 2: "run es w1 = Inr w'"
    by (auto split: sum.splits)
  from step_frame [OF 1 Cons.prems(2)] Cons.prems(4,5) have
    h: "h < length (generators w1)" and np: "\<not> pushing w1" and r: "p \<notin> resolved w1" by auto
  have "\<not> signal_aborted w (generators w ! h)"
  proof
    assume "signal_aborted w (generators w ! h)"
    from run_aborted [OF Cons.prems(1,2) this] Cons.prems(6) show False by simp
  qed
  with step_waiting [OF 1 Cons.prems(2,3)] Cons.prems(5)
  have same: "generators w1 ! h = generators w ! h" by auto
  with Cons.prems(3) have "gstate (generators w1 ! h) = AwaitNextValue i p" by simp
  from Cons.IH [OF 2 h this np r Cons.prems(6)] same show ?case by simp
qed

section \<open>A listener and upstream\<close>

text \<open>
  From the moment its body starts, what a listener has received, followed by what it
  has still to read in the buffer, is what upstream has produced since.
\<close>

lemma run_produced: "run es w = Inr w' \<Longrightarrow> produced w' = produced w @ upstream es"
proof (induction es arbitrary: w)
  case Nil
  then show ?case by (simp add: upstream_def)
next
  case (Cons e es)
  from Cons.prems obtain w1 where 1: "step e w = Inr w1" and 2: "run es w1 = Inr w'"
    by (auto split: sum.splits)
  from 1 have "produced w1 = produced w @ pushed e"
    by (cases rule: step_flat) (auto simp: result_defs split: option.splits)
  with Cons.IH [OF 2] show ?case by (simp add: upstream_def)
qed

lemma upstream_append: "upstream (es @ fs) = upstream es @ upstream fs"
  by (simp add: upstream_def)

lemma upstream_Next [simp]: "upstream (Next g # es) = upstream es"
  by (simp add: upstream_def)

lemma gen_ok_prefix:
  assumes "gen_ok b P R vs x" and "joined x = Some n"
  shows "n \<le> length vs \<and> (\<exists>rest. map Some (drop n vs) = received (results x) @ rest)"
proof (cases "gstate x")
  case (Completed io)
  with assms show ?thesis by (cases io) (auto simp: gen_ok_def)
qed (use assms in \<open>auto simp: gen_ok_def sync_def\<close>)

lemma gen_ok_unread:
  assumes "gen_ok b P R vs x" and "wf_bc b" and "gid (gstate x) = Some i" and "joined x = Some n"
  shows "\<exists>c. map_of (indices b) i = Some c \<and> 0 \<le> c \<and> c \<le> int (length (buffer b)) \<and>
           map Some (drop n vs) = received (results x) @ map Some (drop (nat c) (buffer b))"
proof -
  from gen_active [OF assms(1,3)] assms(4) obtain u where
    u: "unread b i = Some u" "sync vs n (results x) u" by auto
  from u(1) obtain c where c: "map_of (indices b) i = Some c" "u = drop (nat c) (buffer b)"
    by (auto simp: unread_def)
  from c(1) assms(2) have "0 \<le> c \<and> c \<le> int (length (buffer b))"
    unfolding wf_bc_def by blast
  with c u(2) show ?thesis by (auto simp: sync_def)
qed

lemma prefix_take:
  assumes "map Some ys = rs @ rest"
  shows "rs = map Some (take (length rs) ys)"
proof -
  from assms have "take (length rs) (map Some ys) = rs" by simp
  then show ?thesis by (simp add: take_map)
qed

lemma listener_joined:
  assumes reach: "run es0 (new_AsyncBroadcaster up) = Inr w0"
    and g: "g < length (generators w0)"
    and st: "gstate (generators w0 ! g) = SuspendedStart"
    and run: "run (Next g # es) w0 = Inr w"
  shows "world_ok w \<and> g < length (generators w) \<and>
         joined (generators w ! g) = Some (length (produced w0)) \<and>
         produced w = produced w0 @ upstream es"
proof -
  from run obtain w1 where 1: "step (Next g) w0 = Inr w1" and 2: "run es w1 = Inr w"
    by (auto split: sum.splits)
  from 1 g st have j1: "joined (generators w1 ! g) = Some (length (produced w0))"
    and s1: "gstate (generators w1 ! g) \<noteq> SuspendedStart"
    and g1: "g < length (generators w1)" and p1: "produced w1 = produced w0"
    by (auto simp: values_start_eq result_defs split: if_splits option.splits)
  from reach run have "world_ok w" by (blast intro: reachable_ok world_ok_run)
  with run_frame [OF 2 g1] j1 s1 p1 show ?thesis by simp
qed

lemma listener_sync:
  assumes reach: "run es0 (new_AsyncBroadcaster up) = Inr w0"
    and g: "g < length (generators w0)"
    and st: "gstate (generators w0 ! g) = SuspendedStart"
    and run: "run (Next g # es) w0 = Inr w"
  shows "(\<exists>rest. map Some (upstream es) = received (results (generators w ! g)) @ rest) \<and>
         (\<forall>i. gid (gstate (generators w ! g)) = Some i \<longrightarrow>
            (\<exists>c. map_of (indices (bc w)) i = Some c \<and> 0 \<le> c \<and> c \<le> int (length (buffer (bc w))) \<and>
               map Some (upstream es) =
                 received (results (generators w ! g)) @ map Some (drop (nat c) (buffer (bc w)))))"
proof -
  let ?x = "generators w ! g" and ?n = "length (produced w0)"
  from listener_joined [OF assms] have ok: "world_ok w" and gw: "g < length (generators w)"
    and j: "joined ?x = Some ?n" and p: "produced w = produced w0 @ upstream es" by simp_all
  from ok have ok5: "ok5 (bc w) (generators w) (promises w) (resolved w) (produced w)"
    by (simp add: world_ok_def)
  then have wf: "wf_bc (bc w)" by (simp add: ok5_def)
  note gen = ok5_gen [OF ok5 gw]
  from p have d: "drop ?n (produced w) = upstream es" by simp
  from gen_ok_prefix [OF gen j] d
  have 1: "\<exists>rest. map Some (upstream es) = received (results ?x) @ rest" by simp
  have 2: "\<exists>c. map_of (indices (bc w)) i = Some c \<and> 0 \<le> c \<and> c \<le> int (length (buffer (bc w))) \<and>
               map Some (upstream es) = received (results ?x) @ map Some (drop (nat c) (buffer (bc w)))"
    if "gid (gstate ?x) = Some i" for i
    using gen_ok_unread [OF gen wf that j] d by simp
  from 1 2 show ?thesis by blast
qed

lemma map_of_trim_None: "map_of (indices (trim b)) j = None \<longleftrightarrow> map_of (indices b) j = None"
proof -
  have "fst ` set (indices (trim b)) = fst ` set (indices b)"
    using trim_keys [of b] by (metis list.set_map)
  then show ?thesis by (simp add: map_of_eq_None_iff)
qed

lemma map_of_cleanup_None: "map_of (indices b) j = None \<Longrightarrow> map_of (indices (cleanup i b)) j = None"
  by (simp add: cleanup_def map_of_trim_None delete_conv')

lemma step_registers:
  assumes "step e w = Inr w'"
    and "nextGeneratorID (bc w') \<noteq> nextGeneratorID (bc w) \<or>
         (\<exists>j. map_of (indices (bc w')) j \<noteq> None \<and> map_of (indices (bc w)) j = None)"
  shows "\<exists>h. e = Next h \<and> h < length (generators w) \<and> gstate (generators w ! h) = SuspendedStart"
  using assms
proof (cases rule: step_flat)
  case (Finally g i)
  with assms(2) show ?thesis
    by (auto simp: values_finally_def Let_def cleanup_nextGeneratorID map_of_cleanup_None)
next
  case (Yield g i c)
  with assms(2) show ?thesis
    by (auto simp: values_yield_def Let_def trim_nextGeneratorID map_of_trim_None update_conv'
        split: if_splits)
qed (auto simp: result_defs split: option.splits)

section \<open>What a step does to cursors and buffer\<close>

text \<open>
  A step leaves of the buffer (with the value it appends) a final segment, and for a
  listener registered before and after it, what the listener has still to read is
  unchanged but for the appended value, or has lost its first value.
\<close>

lemma wf_bc_register:
  assumes wf: "wf_bc b"
  shows "wf_bc (b\<lparr>nextGeneratorID := nextGeneratorID b + 1,
            indices := AList.update (nextGeneratorID b) (int (length (buffer b))) (indices b)\<rparr>)"
    (is "wf_bc ?b1")
proof -
  have "0 \<le> c \<and> c \<le> int (length (buffer ?b1)) \<and> j < nextGeneratorID ?b1"
    if "map_of (indices ?b1) j = Some c" for j c
  proof (cases "j = nextGeneratorID b")
    case True
    with that show ?thesis by (simp add: update_conv')
  next
    case False
    with that have "map_of (indices b) j = Some c" by (simp add: update_conv')
    with wf have "0 \<le> c \<and> c \<le> int (length (buffer b)) \<and> j < nextGeneratorID b"
      unfolding wf_bc_def by blast
    then show ?thesis by simp
  qed
  moreover from wf have "distinct (map fst (indices ?b1))"
    by (simp add: wf_bc_def distinct_update)
  ultimately show ?thesis unfolding wf_bc_def by blast
qed

lemma unread_fresh:
  assumes "wf_bc b"
  shows "unread b (nextGeneratorID b) = None"
proof (cases "map_of (indices b) (nextGeneratorID b)")
  case None
  then show ?thesis by (simp add: unread_def)
next
  case (Some c)
  with assms have "nextGeneratorID b < nextGeneratorID b" unfolding wf_bc_def by blast
  then show ?thesis by simp
qed

lemma trim_buffer: "\<exists>k. buffer (trim b) = drop k (buffer b)"
proof (cases "Math_min (map snd (indices b))")
  case (Num m)
  show ?thesis
  proof (cases "0 < m")
    case True
    with Num show ?thesis by (auto simp: trim_def)
  next
    case False
    with Num have "buffer (trim b) = drop 0 (buffer b)" by (simp add: trim_def)
    then show ?thesis ..
  qed
next
  case Infinity
  then have "buffer (trim b) = drop (length (buffer b)) (buffer b)" by (simp add: trim_def)
  then show ?thesis ..
qed

lemma cleanup_buffer: "\<exists>k. buffer (cleanup i b) = drop k (buffer b)"
  using trim_buffer [of "b\<lparr>indices := AList.delete i (indices b)\<rparr>"] by (simp add: cleanup_def)

lemma yield_bounds:
  assumes ok: "world_ok w" and g: "g < length (generators w)"
    and c: "map_of (indices (bc w)) i = Some c"
    and how: "gstate (generators w ! g) = SuspendedYield i \<and> c \<noteq> int (length (buffer (bc w))) \<or>
       (\<exists>p. gstate (generators w ! g) = AwaitNextValue i p \<and> p \<in> resolved w)"
  shows "0 \<le> c \<and> c < int (length (buffer (bc w))) \<and> i < nextGeneratorID (bc w)"
proof -
  from ok have ok5: "ok5 (bc w) (generators w) (promises w) (resolved w) (produced w)"
    by (simp add: world_ok_def)
  then have "wf_bc (bc w)" by (simp add: ok5_def)
  with c have b: "0 \<le> c \<and> c \<le> int (length (buffer (bc w))) \<and> i < nextGeneratorID (bc w)"
    unfolding wf_bc_def by blast
  from how show ?thesis
  proof
    assume "gstate (generators w ! g) = SuspendedYield i \<and> c \<noteq> int (length (buffer (bc w)))"
    with b show ?thesis by simp
  next
    assume "\<exists>p. gstate (generators w ! g) = AwaitNextValue i p \<and> p \<in> resolved w"
    with ok5_gen [OF ok5 g] obtain u where "unread (bc w) i = Some u" "u \<noteq> []"
      by (auto simp: gen_ok_def)
    with c have "drop (nat c) (buffer (bc w)) \<noteq> []" by (simp add: unread_def)
    with b show ?thesis by simp
  qed
qed

lemma step_unread:
  assumes ok: "world_ok w" and st: "step e w = Inr w'"
    and u: "unread (bc w) j = Some u" and u': "unread (bc w') j = Some u'"
  shows "u' = u @ pushed e \<or> pushed e = [] \<and> (\<exists>x. u = x # u')"
proof -
  from ok have wf: "wf_bc (bc w)" by (simp add: world_ok_def ok5_def)
  let ?i = "nextGeneratorID (bc w)"
  let ?b1 = "(bc w)\<lparr>nextGeneratorID := ?i + 1,
      indices := AList.update ?i (int (length (buffer (bc w)))) (indices (bc w))\<rparr>"
  from wf have wf1: "wf_bc ?b1" by (rule wf_bc_register)
  from u unread_fresh [OF wf] have fresh: "j \<noteq> ?i" by auto
  then have reg: "unread ?b1 j = unread (bc w) j" by (simp add: unread_register)
  from st show ?thesis
  proof (cases rule: step_flat)
    case (Push v)
    with u u' show ?thesis by (simp add: pushAll_def unread_push [OF wf] del: unread_nextValue)
  next
    case (StartAbort g)
    then have "bc w' = cleanup ?i ?b1"
      by (simp add: values_finally_def values_register_def Let_def)
    with u u' fresh reg StartAbort(2) unread_cleanup [OF wf1, of ?i j] show ?thesis by simp
  next
    case (StartWait g)
    then have "unread (bc w') j = unread ?b1 j"
      by (auto simp: values_wait_def values_register_def Let_def split: option.splits)
    with u u' reg StartWait(2) show ?thesis by simp
  next
    case (Finally g i)
    then have "bc w' = cleanup i (bc w)" "pushed e = []"
      by (auto simp: values_finally_def Let_def)
    with u u' show ?thesis by (simp add: unread_cleanup [OF wf] split: if_splits)
  next
    case (Wait g i)
    with u u' show ?thesis by (auto simp: values_wait_def Let_def split: option.splits)
  next
    case (Yield g i c)
    from yield_bounds [OF ok Yield(1,4)] Yield(2,5)
    have b: "0 \<le> c" "c < int (length (buffer (bc w)))" "i < nextGeneratorID (bc w)"
      by (cases "gstate (generators w ! g)"; auto)+
    let ?b2 = "(bc w)\<lparr>indices := AList.update i (c + 1) (indices (bc w))\<rparr>"
    from wf b have wf2: "wf_bc ?b2" by (intro wf_bc_update) simp_all
    from Yield(6) have bc': "bc w' = trim ?b2" by (simp add: values_yield_def Let_def)
    from b have split: "drop (nat c) (buffer (bc w)) = buffer (bc w) ! nat c # drop (nat (c + 1)) (buffer (bc w))"
      by (simp add: Cons_nth_drop_Suc nat_add_distrib)
    show ?thesis
    proof (cases "j = i")
      case True
      with u Yield(4) have "u = drop (nat c) (buffer (bc w))" by (simp add: unread_def)
      moreover from u' True have "u' = drop (nat (c + 1)) (buffer (bc w))"
        by (simp add: bc' unread_trim [OF wf2] unread_update)
      ultimately show ?thesis using split Yield(5) by auto
    next
      case False
      with u u' have "u' = u" by (simp add: bc' unread_trim [OF wf2] unread_update)
      with Yield(5) show ?thesis by auto
    qed
  qed (use u u' in \<open>auto simp: answer_def Let_def\<close>)
qed

lemma step_buffer:
  assumes st: "step e w = Inr w'"
  shows "\<exists>k. buffer (bc w') = drop k (buffer (bc w) @ pushed e)"
  using st
proof (cases rule: step_flat)
  case (Push v)
  then have "buffer (bc w') = drop 0 (buffer (bc w) @ pushed e)" by (simp add: pushAll_def)
  then show ?thesis ..
next
  case (StartAbort g)
  with cleanup_buffer [of "nextGeneratorID (bc w)" "bc (values_register g w)"] show ?thesis
    by (simp add: values_finally_def values_register_def Let_def)
next
  case (StartWait g)
  then have "buffer (bc w') = drop 0 (buffer (bc w) @ pushed e)"
    by (auto simp: values_wait_def values_register_def Let_def split: option.splits)
  then show ?thesis ..
next
  case (Finally g i)
  with cleanup_buffer [of i "bc w"] show ?thesis
    by (auto simp: values_finally_def Let_def)
next
  case (Wait g i)
  then have "buffer (bc w') = drop 0 (buffer (bc w) @ pushed e)"
    by (auto simp: values_wait_def Let_def split: option.splits)
  then show ?thesis ..
next
  case (Yield g i c)
  with trim_buffer [of "(bc w)\<lparr>indices := AList.update i (c + 1) (indices (bc w))\<rparr>"] show ?thesis
    by (auto simp: values_yield_def Let_def)
qed (auto simp: answer_def Let_def intro: exI [of _ 0])

lemma step_completes:
  assumes "step e w = Inr w'" and "g < length (generators w)"
    and "gid (gstate (generators w ! g)) = Some i"
    and "gstate (generators w' ! g) = Completed io"
  shows "w' = values_finally g i w"
  using assms
  by (cases rule: step_flat)
    (auto simp: result_defs nth_list_update nth_append split: option.splits if_splits)

lemma map_of_cleanup_same: "map_of (indices (cleanup i b)) i = None"
  using cleanup_keys [of i b] by (simp add: map_of_eq_None_iff)

section \<open>A listener makes progress\<close>

text \<open>
  A generator completes only through \<^verbatim>\<open>return\<close> or \<^verbatim>\<open>throw\<close> of its consumer or with
  its signal fired. A registered listener whose signal has not fired and that has not yet
  received everything upstream produced since it joined is handed the next of these
  values by its next run (the pull, or the end of its wait, whose promise is then
  resolved), and by repeating this it receives all of them.
\<close>

lemma step_completed_cause:
  assumes "step e w = Inr w'" and "g < length (generators w)"
    and "gstate (generators w' ! g) = Completed io"
  shows "gstate (generators w ! g) = Completed io \<or> e = Return g \<or> e = Throw g \<or>
         signal_aborted w (generators w ! g)"
  using assms
  by (cases rule: step_flat)
    (auto simp: result_defs nth_list_update nth_append split: option.splits if_splits)

lemma run_completed_cause:
  assumes "run es w = Inr w'" and "g < length (generators w)"
    and "gstate (generators w' ! g) = Completed io"
  shows "gstate (generators w ! g) = Completed io \<or> Return g \<in> set es \<or> Throw g \<in> set es \<or>
         signal_aborted w' (generators w' ! g)"
  using assms
proof (induction es arbitrary: w)
  case Nil
  then show ?case by simp
next
  case (Cons e es)
  from Cons.prems obtain w1 where 1: "step e w = Inr w1" and 2: "run es w1 = Inr w'"
    by (auto split: sum.splits)
  from step_frame [OF 1 Cons.prems(2)] have g1: "g < length (generators w1)" by simp
  from Cons.IH [OF 2 g1 Cons.prems(3)] show ?case
  proof (elim disjE)
    assume "gstate (generators w1 ! g) = Completed io"
    from step_completed_cause [OF 1 Cons.prems(2) this] show ?thesis
    proof (elim disjE)
      assume "signal_aborted w (generators w ! g)"
      from step_aborted [OF 1 Cons.prems(2) this] run_aborted [OF 2 g1] show ?thesis by simp
    qed simp_all
  qed simp_all
qed

lemma listener_position:
  assumes reach: "run es0 (new_AsyncBroadcaster up) = Inr w0"
    and g: "g < length (generators w0)"
    and st: "gstate (generators w0 ! g) = SuspendedStart"
    and run: "run (Next g # es) w0 = Inr w"
    and i: "gid (gstate (generators w ! g)) = Some i"
  obtains c where "map_of (indices (bc w)) i = Some c" "0 \<le> c"
    "c \<le> int (length (buffer (bc w)))"
    "c < int (length (buffer (bc w))) \<longleftrightarrow>
       length (received (results (generators w ! g))) < length (upstream es)"
    "c < int (length (buffer (bc w))) \<Longrightarrow>
       buffer (bc w) ! nat c = upstream es ! length (received (results (generators w ! g)))"
    "\<And>p. gstate (generators w ! g) = AwaitNextValue i p \<Longrightarrow>
       p \<in> resolved w \<longleftrightarrow> c < int (length (buffer (bc w)))"
proof -
  let ?x = "generators w ! g" and ?b = "bc w"
  let ?k = "length (received (results ?x))"
  from listener_joined [OF reach g st run] have ok: "world_ok w" and gw: "g < length (generators w)"
    by simp_all
  from ok have ok5: "ok5 ?b (generators w) (promises w) (resolved w) (produced w)"
    by (simp add: world_ok_def)
  from listener_sync [OF reach g st run] i obtain c where
    c: "map_of (indices ?b) i = Some c" "0 \<le> c" "c \<le> int (length (buffer ?b))"
    and sync: "map Some (upstream es) = received (results ?x) @ map Some (drop (nat c) (buffer ?b))"
    by blast
  from sync have len: "length (upstream es) = ?k + length (drop (nat c) (buffer ?b))"
    by (metis length_append length_map)
  with c(2,3) have iff: "c < int (length (buffer ?b)) \<longleftrightarrow> ?k < length (upstream es)" by auto
  have val: "buffer ?b ! nat c = upstream es ! ?k" if lt: "c < int (length (buffer ?b))"
  proof -
    from lt c(2) have d: "drop (nat c) (buffer ?b) = buffer ?b ! nat c # drop (Suc (nat c)) (buffer ?b)"
      by (simp add: Cons_nth_drop_Suc)
    from iff lt have k: "?k < length (upstream es)" by simp
    from sync have "map Some (upstream es) ! ?k =
        (received (results ?x) @ map Some (drop (nat c) (buffer ?b))) ! ?k" by simp
    with k d show ?thesis by (simp add: nth_append)
  qed
  have res: "p \<in> resolved w \<longleftrightarrow> c < int (length (buffer ?b))"
    if "gstate ?x = AwaitNextValue i p" for p
  proof -
    from ok5_gen [OF ok5 gw] that obtain u where
      u: "unread ?b i = Some u" "if p \<in> resolved w then u \<noteq> [] else u = []"
      by (auto simp: gen_ok_def split: if_splits)
    from u(1) c(1) have "u = drop (nat c) (buffer ?b)" by (simp add: unread_def)
    with u(2) c(2,3) show ?thesis by (auto split: if_splits)
  qed
  from c iff val res that show thesis by blast
qed


lemma values_yield_facts:
  assumes "g < length (generators w)" "0 \<le> c" "c < int (length (buffer (bc w)))"
  shows "gstate (generators (values_yield g i c w) ! g) = SuspendedYield i"
    and "results (generators (values_yield g i c w) ! g) =
           results (generators w ! g) @ [Value (Some (buffer (bc w) ! nat c))]"
    and "signal_aborted (values_yield g i c w) (generators (values_yield g i c w) ! g) =
           signal_aborted w (generators w ! g)"
  using assms by (simp_all add: values_yield_def Let_def signal_aborted_def split: option.splits)

lemma listener_pull:
  assumes reach: "run es0 (new_AsyncBroadcaster up) = Inr w0"
    and g: "g < length (generators w0)"
    and st: "gstate (generators w0 ! g) = SuspendedStart"
    and run: "run (Next g # es) w0 = Inr w"
    and i: "gid (gstate (generators w ! g)) = Some i"
    and nab: "\<not> signal_aborted w (generators w ! g)"
    and more: "length (received (results (generators w ! g))) < length (upstream es)"
  shows "\<exists>e w'. (e = Next g \<and> gstate (generators w ! g) = SuspendedYield i \<or>
                  e = Settle g \<and> (\<exists>p. gstate (generators w ! g) = AwaitNextValue i p \<and> p \<in> resolved w)) \<and>
           step e w = Inr w' \<and>
           gstate (generators w' ! g) = SuspendedYield i \<and>
           results (generators w' ! g) = results (generators w ! g) @
             [Value (Some (upstream es ! length (received (results (generators w ! g)))))] \<and>
           \<not> signal_aborted w' (generators w' ! g)"
proof -
  let ?x = "generators w ! g"
  from listener_joined [OF reach g st run] have gw: "g < length (generators w)" by simp
  from listener_position [OF reach g st run i] more obtain c where
    c: "map_of (indices (bc w)) i = Some c" "0 \<le> c" "c < int (length (buffer (bc w)))"
    and val: "buffer (bc w) ! nat c = upstream es ! length (received (results ?x))"
    and res: "\<And>p. gstate ?x = AwaitNextValue i p \<Longrightarrow> p \<in> resolved w"
    by metis
  let ?w' = "values_yield g i c w"
  note facts = values_yield_facts [OF gw c(2,3), of i]
  from i show ?thesis
  proof (cases "gstate ?x")
    case (SuspendedYield j)
    with i have j: "j = i" by simp
    from SuspendedYield j gw nab c have "step (Next g) w = Inr ?w'"
      by (simp add: values_loop_def)
    with SuspendedYield j facts val nab show ?thesis by (intro exI [of _ "Next g"] exI [of _ ?w']) simp
  next
    case (AwaitNextValue j p)
    with i have j: "j = i" by simp
    from AwaitNextValue j res have p: "p \<in> resolved w" by simp
    with AwaitNextValue j gw nab c have "step (Settle g) w = Inr ?w'"
      by (simp add: values_resume_def)
    with AwaitNextValue j p facts val nab show ?thesis
      by (intro exI [of _ "Settle g"] exI [of _ ?w']) simp
  qed simp_all
qed

lemma listener_wait:
  assumes reach: "run es0 (new_AsyncBroadcaster up) = Inr w0"
    and g: "g < length (generators w0)"
    and st: "gstate (generators w0 ! g) = SuspendedStart"
    and run: "run (Next g # es) w0 = Inr w"
    and y: "gstate (generators w ! g) = SuspendedYield i"
    and nab: "\<not> signal_aborted w (generators w ! g)"
    and all: "length (received (results (generators w ! g))) = length (upstream es)"
  shows "\<exists>w' p. step (Next g) w = Inr w' \<and>
           gstate (generators w' ! g) = AwaitNextValue i p \<and>
           results (generators w' ! g) = results (generators w ! g)"
proof -
  from y have i: "gid (gstate (generators w ! g)) = Some i" by simp
  from listener_joined [OF reach g st run] have gw: "g < length (generators w)" by simp
  from listener_position [OF reach g st run i] all obtain c where
    "map_of (indices (bc w)) i = Some c" "c \<le> int (length (buffer (bc w)))"
    "\<not> c < int (length (buffer (bc w)))"
    by (metis less_irrefl)
  then have c: "map_of (indices (bc w)) i = Some (int (length (buffer (bc w))))" by simp
  from y gw nab c have "step (Next g) w = Inr (values_wait g i w)" by (simp add: values_loop_def)
  moreover have "\<exists>p. gstate (generators (values_wait g i w) ! g) = AwaitNextValue i p \<and>
      results (generators (values_wait g i w) ! g) = results (generators w ! g)"
    using gw by (cases "nextValue (bc w)") (simp_all add: values_wait_def)
  ultimately show ?thesis by blast
qed

lemma listener_catches_up:
  assumes reach: "run es0 (new_AsyncBroadcaster up) = Inr w0"
    and g: "g < length (generators w0)"
    and st: "gstate (generators w0 ! g) = SuspendedStart"
    and run: "run (Next g # es) w0 = Inr w"
    and i: "gid (gstate (generators w ! g)) = Some i"
    and nab: "\<not> signal_aborted w (generators w ! g)"
    and n: "n = length (upstream es) - length (received (results (generators w ! g)))"
  shows "\<exists>ps w'. set ps \<subseteq> {Next g, Settle g} \<and> length ps = n \<and> run ps w = Inr w' \<and>
           received (results (generators w' ! g)) = map Some (upstream es)"
  using run i nab n
proof (induction n arbitrary: es w)
  case 0
  from listener_sync [OF reach g st "0.prems"(1)] obtain rest where
    "map Some (upstream es) = received (results (generators w ! g)) @ rest" by blast
  moreover from this have "length (upstream es) =
      length (received (results (generators w ! g))) + length rest"
    by (metis length_append length_map)
  ultimately have "received (results (generators w ! g)) = map Some (upstream es)"
    using "0.prems"(4) by simp
  then have "set [] \<subseteq> {Next g, Settle g} \<and> length ([] :: 'a event list) = 0 \<and> run [] w = Inr w \<and>
      received (results (generators w ! g)) = map Some (upstream es)" by simp
  then show ?case by blast
next
  case (Suc n)
  let ?k = "length (received (results (generators w ! g)))"
  from Suc.prems(4) have more: "?k < length (upstream es)" by simp
  from listener_pull [OF reach g st Suc.prems(1,2,3) more] obtain e w1 where
    e: "e = Next g \<or> e = Settle g" and 1: "step e w = Inr w1"
    and y: "gstate (generators w1 ! g) = SuspendedYield i"
    and r: "results (generators w1 ! g) = results (generators w ! g) @ [Value (Some (upstream es ! ?k))]"
    and nab1: "\<not> signal_aborted w1 (generators w1 ! g)"
    by blast
  from e have up: "upstream (es @ [e]) = upstream es" by (auto simp: upstream_def)
  from Suc.prems(1) 1 have "run ((Next g # es) @ [e]) w0 = Inr w1"
    unfolding run_append by simp
  then have run1: "run (Next g # (es @ [e])) w0 = Inr w1" by simp
  from y have i1: "gid (gstate (generators w1 ! g)) = Some i" by simp
  from r Suc.prems(4) have n1: "n = length (upstream (es @ [e])) - length (received (results (generators w1 ! g)))"
    by (simp add: up received_app)
  from Suc.IH [OF run1 i1 nab1 n1] obtain ps w' where
    ps: "set ps \<subseteq> {Next g, Settle g}" "length ps = n" "run ps w1 = Inr w'"
    "received (results (generators w' ! g)) = map Some (upstream es)"
    unfolding up by blast
  from e ps 1 have "set (e # ps) \<subseteq> {Next g, Settle g} \<and> length (e # ps) = Suc n \<and>
      run (e # ps) w = Inr w' \<and> received (results (generators w' ! g)) = map Some (upstream es)"
    by auto
  then show ?case by blast
qed




lemma listener_resolved_iff:
  assumes reach: "run es0 (new_AsyncBroadcaster up) = Inr w0"
    and g: "g < length (generators w0)"
    and st: "gstate (generators w0 ! g) = SuspendedStart"
    and run: "run (Next g # es) w0 = Inr w"
    and a: "gstate (generators w ! g) = AwaitNextValue i p"
  shows "p \<in> resolved w \<longleftrightarrow>
         length (received (results (generators w ! g))) < length (upstream es)"
proof -
  from a have i: "gid (gstate (generators w ! g)) = Some i" by simp
  show ?thesis
  proof (rule listener_position [OF reach g st run i])
    fix c
    assume "c < int (length (buffer (bc w))) \<longleftrightarrow>
        length (received (results (generators w ! g))) < length (upstream es)"
      and "\<And>p. gstate (generators w ! g) = AwaitNextValue i p \<Longrightarrow>
        p \<in> resolved w \<longleftrightarrow> c < int (length (buffer (bc w)))"
    with a show ?thesis by simp
  qed
qed

section \<open>Evaluating the model\<close>

lemmas run_defs =
  new_AsyncBroadcaster_def pushAll_def signal_aborted_def values_finally_def values_yield_def
  values_wait_def values_loop_def values_register_def values_start_def values_resume_def
  answer_def cleanup_def trim_def Let_def

lemma Math_min_Min: "xs \<noteq> [] \<Longrightarrow> Math_min xs = Num (Min (set xs))"
proof (induction xs)
  case Nil
  then show ?case by simp
next
  case (Cons x xs)
  show ?case
  proof (cases "xs = []")
    case True
    then show ?thesis by simp
  next
    case False
    with Cons.IH have "Math_min xs = Num (Min (set xs))" by simp
    with False show ?thesis by (simp add: Min_insert)
  qed
qed

section \<open>The trimmer\<close>

text \<open>
  Claim C2. In a state with at least one registered listener, let \<open>m\<close> be the least
  cursor. When \<open>m > 0\<close>, \<^verbatim>\<open>_trim\<close> drops the first \<open>m\<close> values of the buffer (the
  buffer gets shorter by exactly \<open>m\<close>; cursors never exceed the length of the buffer in
  a reachable state), subtracts \<open>m\<close> from every cursor, and the least cursor is 0
  afterwards. When \<open>m = 0\<close>, \<^verbatim>\<open>_trim\<close> changes nothing.
\<close>

theorem trim_removes_below_minimum:
  assumes "indices b \<noteq> []" and "m = Min (snd ` set (indices b))"
  shows "(0 < m \<longrightarrow>
            buffer (trim b) = drop (nat m) (buffer b) \<and>
            (m \<le> int (length (buffer b)) \<longrightarrow>
               int (length (buffer (trim b))) = int (length (buffer b)) - m) \<and>
            indices (trim b) = map (\<lambda>(i, n). (i, n - m)) (indices b) \<and>
            Min (snd ` set (indices (trim b))) = 0) \<and>
         (m = 0 \<longrightarrow> trim b = b)"
proof -
  from assms have min: "Math_min (map snd (indices b)) = Num m"
    by (simp add: Math_min_Min)
  have "Min (snd ` set (indices (trim b))) = 0" if "0 < m"
  proof -
    from assms(1) have "map snd (indices (trim b)) \<noteq> []"
      using trim_keys [of b] by (metis map_is_Nil_conv)
    from Math_min_Min [OF this] trim_min_zero [OF min that] show ?thesis by simp
  qed
  with min show ?thesis by (auto simp: trim_def)
qed

theorem trim_removes_below_minimum_witness:
  "buffer (trim trim_example) = [12, 13] \<and>
   indices (trim trim_example) = [(0, 0), (2, 1)] \<and>
   Min (snd ` set (indices (trim trim_example))) = 0"
proof -
  have 1: "indices trim_example \<noteq> []" by (simp add: trim_example_def)
  have 2: "(2::int) = Min (snd ` set (indices trim_example))" by (simp add: trim_example_def)
  from trim_removes_below_minimum [OF 1 2] show ?thesis by (simp add: trim_example_def)
qed

text \<open>
  Claim C5, as the code has it. With no listener registered, \<^verbatim>\<open>_trim\<close> empties the
  buffer: \<^verbatim>\<open>Math.min()\<close> of no argument is \<^verbatim>\<open>Infinity\<close>, which is greater than 0, and
  \<^verbatim>\<open>splice(0, Infinity)\<close> removes every value. Nothing else changes.
\<close>

theorem trim_without_listeners: "indices b = [] \<Longrightarrow> trim b = b\<lparr>buffer := []\<rparr>"
  by (simp add: trim_def)

theorem trim_without_listeners_witness:
  "trim no_listener_example = \<lparr>buffer = [], nextGeneratorID = 1, indices = [], nextValue = None\<rparr>"
proof -
  have "indices no_listener_example = []" by (simp add: no_listener_example_def)
  from trim_without_listeners [OF this] show ?thesis by (simp add: no_listener_example_def)
qed

text \<open>
  The state of the counterexample arises in \<^verbatim>\<open>_cleanup\<close> when the only listener leaves
  with one value unread: a listener joins, upstream produces 1 and 2, the listener takes
  1 and then stops. Its entry is deleted, and the trim that follows removes the 2.
\<close>

theorem trim_without_listeners_counterexample:
  "(case run [Values None, Next 0, Push 1, Push 2, Settle 0] (new_AsyncBroadcaster True) of
      Inl err \<Rightarrow> False
    | Inr w \<Rightarrow> (bc w)\<lparr>indices := AList.delete 0 (indices (bc w))\<rparr> = no_listener_example) \<and>
   indices no_listener_example = [] \<and>
   buffer (trim no_listener_example) \<noteq> buffer no_listener_example"
  by (simp add: run_defs no_listener_example_def)

section \<open>Upstream exhaustion\<close>

text \<open>
  Claim C4, as the code has it. \<^verbatim>\<open>_pushAll\<close> does nothing when its loop ends, so a
  listener cannot learn that upstream is exhausted. A pull made with the cursor at the
  end of the buffer after the loop has finished waits for the pending promise, which no
  later event resolves: whatever happens next, as long as the listener's signal has not
  fired the pull is still pending and the listener has been handed nothing more.
\<close>

theorem pull_after_upstream_end_stays_pending:
  assumes reach: "run es0 (new_AsyncBroadcaster up) = Inr w"
    and ended: "\<not> pushing w"
    and g: "g < length (generators w)"
    and st: "gstate (generators w ! g) = SuspendedYield i"
    and at_end: "map_of (indices (bc w)) i = Some (int (length (buffer (bc w))))"
    and run: "run (Next g # es) w = Inr w'"
    and not_cancelled: "\<not> signal_aborted w' (generators w' ! g)"
  shows "(\<exists>p. gstate (generators w' ! g) = AwaitNextValue i p) \<and>
         results (generators w' ! g) = results (generators w ! g)"
proof -
  from run obtain w1 where 1: "step (Next g) w = Inr w1" and 2: "run es w1 = Inr w'"
    by (auto split: sum.splits)
  from reach have ok: "world_ok w" by (rule reachable_ok)
  have nab: "\<not> signal_aborted w (generators w ! g)"
  proof
    assume "signal_aborted w (generators w ! g)"
    from run_aborted [OF run g this] not_cancelled show False by simp
  qed
  with 1 g st at_end have w1: "w1 = values_wait g i w"
    by (simp add: values_loop_def)
  from ok have nv: "\<And>p. nextValue (bc w) = Some p \<Longrightarrow> p \<notin> resolved w"
    and fresh: "promises w \<notin> resolved w"
    by (auto simp: world_ok_def ok5_def)
  obtain p where p: "gstate (generators w1 ! g) = AwaitNextValue i p" "p \<notin> resolved w1"
    and res: "results (generators w1 ! g) = results (generators w ! g)"
    using g nv fresh unfolding w1 by (cases "nextValue (bc w)") (auto simp: values_wait_def)
  from step_frame [OF 1 g] ended have g1: "g < length (generators w1)" and np: "\<not> pushing w1"
    by auto
  from run_waiting [OF 2 g1 p(1) np p(2) not_cancelled] p(1) res show ?thesis by simp
qed

text \<open>
  A listener joins, receives the one value upstream produces, upstream ends, and the
  listener pulls again: the pull is not answered with completion, the generator waits for
  promise 1, which is not resolved.
\<close>

theorem pull_after_upstream_end_counterexample:
  "(case run completion_example (new_AsyncBroadcaster True) of
      Inl err \<Rightarrow> False
    | Inr w \<Rightarrow> \<not> pushing w \<and> indices (bc w) = [(0, 0)] \<and> buffer (bc w) = [] \<and>
        gstate (generators w ! 0) = AwaitNextValue 0 1 \<and> 1 \<notin> resolved w \<and>
        results (generators w ! 0) = [Value (Some 1)])"
  by (simp add: run_defs completion_example_def)

theorem pull_after_upstream_end_witness:
  "(case run completion_example (new_AsyncBroadcaster True) of
      Inl err \<Rightarrow> False
    | Inr w \<Rightarrow> gstate (generators w ! 0) = AwaitNextValue 0 1 \<and>
        results (generators w ! 0) = [Value (Some (1::nat))])"
proof -
  let ?w = "\<lparr>bc = \<lparr>buffer = [], nextGeneratorID = 1, indices = [(0, 0)], nextValue = None\<rparr>,
      generators = [\<lparr>signal = None, gstate = SuspendedYield 0, results = [Value (Some (1::nat))],
        joined = Some 0\<rparr>],
      pushing = False, promises = 1, resolved = {0}, aborted = {}, produced = [1]\<rparr>"
  let ?w' = "?w\<lparr>bc := (bc ?w)\<lparr>nextValue := Some 1\<rparr>, promises := 2,
      generators := [\<lparr>signal = None, gstate = AwaitNextValue 0 1, results = [Value (Some (1::nat))],
        joined = Some 0\<rparr>]\<rparr>"
  have 1: "run [Values None, Next 0, Push 1, Settle 0, UpstreamEnd] (new_AsyncBroadcaster True) = Inr ?w"
    by (simp add: run_defs)
  have 2: "run [Next 0] ?w = Inr ?w'" by (simp add: run_defs)
  have 3: "run completion_example (new_AsyncBroadcaster True) = Inr ?w'"
    by (simp add: run_defs completion_example_def)
  have "(\<exists>p. gstate (generators ?w' ! 0) = AwaitNextValue 0 p) \<and>
         results (generators ?w' ! 0) = results (generators ?w ! 0)"
    by (rule pull_after_upstream_end_stays_pending [OF 1 _ _ _ _ 2])
      (simp_all add: signal_aborted_def)
  then show ?thesis unfolding 3 by simp
qed

section \<open>Ordering and late join\<close>

text \<open>
  Claim C1. A listener whose iteration begins before upstream has produced anything
  observes the values upstream produces, in the same order, none twice and none left
  out. At every later moment:
  \<^item> what it has received is an initial segment of what upstream has produced in the
    whole trace;
  \<^item> while the listener is registered, the rest of that sequence is exactly what lies in
    the buffer from its cursor on;
  \<^item> its sequence has ended only if its signal has fired or its consumer has called
    \<^verbatim>\<open>return\<close> or \<^verbatim>\<open>throw\<close>;
  \<^item> while its signal has not fired, a pull at the \<^verbatim>\<open>yield\<close> hands over the next
    value upstream produced when one is outstanding, and waits without ending the
    sequence otherwise; a waiting listener's promise is resolved exactly when a value is
    outstanding, and the end of the wait then hands over the next value; and by its own
    pulls alone, one for each outstanding value, the listener comes to have received
    the whole sequence.
\<close>

theorem early_listener_observes_upstream_order:
  assumes reach: "run es0 (new_AsyncBroadcaster up) = Inr w0"
    and none_yet: "upstream es0 = []"
    and g: "g < length (generators w0)"
    and st: "gstate (generators w0 ! g) = SuspendedStart"
    and run: "run (Next g # es) w0 = Inr w"
  shows "received (results (generators w ! g)) =
           map Some (take (length (received (results (generators w ! g))))
             (upstream (es0 @ Next g # es))) \<and>
         (\<forall>i. gid (gstate (generators w ! g)) = Some i \<longrightarrow>
            (\<exists>c. map_of (indices (bc w)) i = Some c \<and> 0 \<le> c \<and> c \<le> int (length (buffer (bc w))) \<and>
               map Some (upstream (es0 @ Next g # es)) =
                 received (results (generators w ! g)) @ map Some (drop (nat c) (buffer (bc w))))) \<and>
         (\<forall>io. gstate (generators w ! g) = Completed io \<longrightarrow>
            signal_aborted w (generators w ! g) \<or> Return g \<in> set es \<or> Throw g \<in> set es) \<and>
         (\<not> signal_aborted w (generators w ! g) \<longrightarrow>
            (\<forall>i. gstate (generators w ! g) = SuspendedYield i \<longrightarrow>
               (if length (received (results (generators w ! g))) < length (upstream (es0 @ Next g # es))
                then \<exists>w'. step (Next g) w = Inr w' \<and>
                       gstate (generators w' ! g) = SuspendedYield i \<and>
                       results (generators w' ! g) = results (generators w ! g) @
                         [Value (Some (upstream (es0 @ Next g # es) !
                            length (received (results (generators w ! g)))))]
                else \<exists>w' p. step (Next g) w = Inr w' \<and>
                       gstate (generators w' ! g) = AwaitNextValue i p \<and>
                       results (generators w' ! g) = results (generators w ! g))) \<and>
            (\<forall>i p. gstate (generators w ! g) = AwaitNextValue i p \<longrightarrow>
               (p \<in> resolved w \<longleftrightarrow>
                  length (received (results (generators w ! g))) < length (upstream (es0 @ Next g # es))) \<and>
               (p \<in> resolved w \<longrightarrow>
                  (\<exists>w'. step (Settle g) w = Inr w' \<and>
                     gstate (generators w' ! g) = SuspendedYield i \<and>
                     results (generators w' ! g) = results (generators w ! g) @
                       [Value (Some (upstream (es0 @ Next g # es) !
                          length (received (results (generators w ! g)))))]))) \<and>
            (\<forall>i. gid (gstate (generators w ! g)) = Some i \<longrightarrow>
               (\<exists>ps w'. set ps \<subseteq> {Next g, Settle g} \<and>
                  length ps = length (upstream (es0 @ Next g # es)) -
                    length (received (results (generators w ! g))) \<and>
                  run ps w = Inr w' \<and>
                  received (results (generators w' ! g)) = map Some (upstream (es0 @ Next g # es)))))"
proof -
  let ?x = "generators w ! g"
  let ?k = "length (received (results ?x))"
  from none_yet have all: "upstream (es0 @ Next g # es) = upstream es"
    by (simp add: upstream_append)
  from listener_sync [OF reach g st run]
  have 1: "received (results ?x) = map Some (take ?k (upstream es))"
    and 2: "\<forall>i. gid (gstate ?x) = Some i \<longrightarrow>
            (\<exists>c. map_of (indices (bc w)) i = Some c \<and> 0 \<le> c \<and> c \<le> int (length (buffer (bc w))) \<and>
               map Some (upstream es) = received (results ?x) @ map Some (drop (nat c) (buffer (bc w))))"
    by (auto dest: prefix_take)
  have 3: "signal_aborted w ?x \<or> Return g \<in> set es \<or> Throw g \<in> set es"
    if "gstate ?x = Completed io" for io
    using run_completed_cause [OF run g that] st by auto
  have le: "?k \<le> length (upstream es)"
  proof -
    from listener_sync [OF reach g st run] obtain rest where
      "map Some (upstream es) = received (results ?x) @ rest" by blast
    then have "length (upstream es) = ?k + length rest" by (metis length_append length_map)
    then show ?thesis by simp
  qed
  have 4: "if ?k < length (upstream es)
      then \<exists>w'. step (Next g) w = Inr w' \<and> gstate (generators w' ! g) = SuspendedYield i \<and>
             results (generators w' ! g) = results ?x @ [Value (Some (upstream es ! ?k))]
      else \<exists>w' p. step (Next g) w = Inr w' \<and> gstate (generators w' ! g) = AwaitNextValue i p \<and>
             results (generators w' ! g) = results ?x"
    if nab: "\<not> signal_aborted w ?x" and y: "gstate ?x = SuspendedYield i" for i
  proof (cases "?k < length (upstream es)")
    case True
    from y have "gid (gstate ?x) = Some i" by simp
    from listener_pull [OF reach g st run this nab True] obtain e w' where
      e: "e = Next g \<and> gstate ?x = SuspendedYield i \<or>
          e = Settle g \<and> (\<exists>p. gstate ?x = AwaitNextValue i p \<and> p \<in> resolved w)"
      and w': "step e w = Inr w'" "gstate (generators w' ! g) = SuspendedYield i"
        "results (generators w' ! g) = results ?x @ [Value (Some (upstream es ! ?k))]"
      by blast
    from e y have "e = Next g" by auto
    with w' True show ?thesis by auto
  next
    case False
    with le have "?k = length (upstream es)" by simp
    from listener_wait [OF reach g st run y nab this] False show ?thesis by simp
  qed
  have 5: "(p \<in> resolved w \<longleftrightarrow> ?k < length (upstream es)) \<and>
      (p \<in> resolved w \<longrightarrow>
         (\<exists>w'. step (Settle g) w = Inr w' \<and> gstate (generators w' ! g) = SuspendedYield i \<and>
            results (generators w' ! g) = results ?x @ [Value (Some (upstream es ! ?k))]))"
    if nab: "\<not> signal_aborted w ?x" and a: "gstate ?x = AwaitNextValue i p" for i p
  proof -
    from a have i: "gid (gstate ?x) = Some i" by simp
    from listener_resolved_iff [OF reach g st run a]
    have iff: "p \<in> resolved w \<longleftrightarrow> ?k < length (upstream es)" .
    have "\<exists>w'. step (Settle g) w = Inr w' \<and> gstate (generators w' ! g) = SuspendedYield i \<and>
            results (generators w' ! g) = results ?x @ [Value (Some (upstream es ! ?k))]"
      if p: "p \<in> resolved w"
    proof -
      from p iff have more: "?k < length (upstream es)" by simp
      from listener_pull [OF reach g st run i nab more] obtain e w' where
        e: "e = Next g \<and> gstate ?x = SuspendedYield i \<or>
            e = Settle g \<and> (\<exists>p. gstate ?x = AwaitNextValue i p \<and> p \<in> resolved w)"
        and w': "step e w = Inr w'" "gstate (generators w' ! g) = SuspendedYield i"
          "results (generators w' ! g) = results ?x @ [Value (Some (upstream es ! ?k))]"
        by blast
      from e a have "e = Settle g" by auto
      with w' show ?thesis by auto
    qed
    with iff show ?thesis by blast
  qed
  have 6: "\<exists>ps w'. set ps \<subseteq> {Next g, Settle g} \<and> length ps = length (upstream es) - ?k \<and>
      run ps w = Inr w' \<and> received (results (generators w' ! g)) = map Some (upstream es)"
    if "\<not> signal_aborted w ?x" "gid (gstate ?x) = Some i" for i
    using listener_catches_up [OF reach g st run that(2,1) refl] .
  show ?thesis
    unfolding all
    apply (intro conjI allI impI)
    subgoal by (rule 1)
    subgoal for i using 2 by blast
    subgoal for io by (rule 3)
    subgoal for i by (rule 4)
    subgoal for i p using 5 [of i p] by blast
    subgoal for i p using 5 [of i p] by blast
    subgoal for i by (rule 6)
    done
qed


theorem early_listener_observes_upstream_order_witness:
  "(case run ([Values None, Next 0] @ ordering_example) (new_AsyncBroadcaster True :: nat world) of
      Inl err \<Rightarrow> False
    | Inr w \<Rightarrow>
        received (results (generators w ! 0)) = [Some 1, Some 2] \<and>
        upstream ([Values None] @ Next 0 # ordering_example) = [1, 2, 3] \<and>
        gstate (generators w ! 0) = SuspendedYield 0 \<and>
        indices (bc w) = [(0, 0)] \<and> buffer (bc w) = [3] \<and>
        (case step (Next 0) w of
           Inl err \<Rightarrow> False
         | Inr w' \<Rightarrow> received (results (generators w' ! 0)) = [Some 1, Some 2, Some 3]))"
proof -
  let ?a = "\<lparr>bc = \<lparr>buffer = [], nextGeneratorID = 0, indices = [], nextValue = None\<rparr>,
      generators = [\<lparr>signal = None, gstate = SuspendedStart, results = [], joined = None\<rparr>],
      pushing = True, promises = 0, resolved = {}, aborted = {}, produced = ([] :: nat list)\<rparr>"
  let ?z = "\<lparr>bc = \<lparr>buffer = [3], nextGeneratorID = 1, indices = [(0, 0)], nextValue = None\<rparr>,
      generators = [\<lparr>signal = None, gstate = SuspendedYield 0,
        results = [Value (Some 1), Value (Some 2)], joined = Some 0\<rparr>],
      pushing = True, promises = 1, resolved = {0}, aborted = {}, produced = [1, 2, 3 :: nat]\<rparr>"
  have 0: "run [Values None] (new_AsyncBroadcaster True) = Inr ?a" by (simp add: run_defs)
  have 1: "run (Next 0 # ordering_example) ?a = Inr ?z"
    by (simp add: run_defs ordering_example_def)
  have 2: "run ([Values None, Next 0] @ ordering_example) (new_AsyncBroadcaster True) = Inr ?z"
    by (simp add: run_defs ordering_example_def)
  have u: "upstream ([Values None] @ Next 0 # ordering_example) = [1, 2, 3]"
    by (simp add: upstream_def ordering_example_def)
  have p: "upstream [Values None] = ([] :: nat list)" "0 < length (generators ?a)"
    "gstate (generators ?a ! 0) = SuspendedStart"
    by (simp_all add: upstream_def)
  note T = early_listener_observes_upstream_order [OF 0 p 1, unfolded u]
  have nab: "\<not> signal_aborted ?z (generators ?z ! 0)" by (simp add: signal_aborted_def)
  have y: "gstate (generators ?z ! 0) = SuspendedYield 0" by simp
  from T have "received (results (generators ?z ! 0)) =
      map Some (take (length (received (results (generators ?z ! 0)))) [1, 2, 3])"
    by (rule conjunct1)
  moreover
  from T [THEN conjunct2, THEN conjunct2, THEN conjunct2, THEN mp, OF nab, THEN conjunct1,
      THEN spec, of 0, THEN mp, OF y]
  have "\<exists>w'. step (Next 0) ?z = Inr w' \<and> gstate (generators w' ! 0) = SuspendedYield 0 \<and>
      results (generators w' ! 0) = results (generators ?z ! 0) @
        [Value (Some ([1, 2, 3] ! length (received (results (generators ?z ! 0)))))]"
    by simp
  ultimately show ?thesis unfolding 2 u by (auto simp: run_defs)
qed

text \<open>
  Claim C3. When the iteration of a listener begins after \<open>N\<close> values have been
  appended, its cursor is set to the length of the buffer at that moment, and the
  listener never observes any of those \<open>N\<close> values: what it has received at any later
  moment is an initial segment of the values produced after the first \<open>N\<close>.
\<close>

theorem late_listener_skips_history:
  assumes reach: "run es0 (new_AsyncBroadcaster up) = Inr w0"
    and g: "g < length (generators w0)"
    and st: "gstate (generators w0 ! g) = SuspendedStart"
    and run: "run (Next g # es) w0 = Inr w"
  shows "step (Next g) w0 = values_loop g (nextGeneratorID (bc w0)) (values_register g w0) \<and>
         map_of (indices (bc (values_register g w0))) (nextGeneratorID (bc w0)) =
           Some (int (length (buffer (bc w0)))) \<and>
         (\<forall>w1. step (Next g) w0 = Inr w1 \<and> \<not> signal_aborted w0 (generators w0 ! g) \<longrightarrow>
            gid (gstate (generators w1 ! g)) = Some (nextGeneratorID (bc w0)) \<and>
            map_of (indices (bc w1)) (nextGeneratorID (bc w0)) = Some (int (length (buffer (bc w1))))) \<and>
         (\<exists>k. received (results (generators w ! g)) =
            map Some (take k (drop (length (upstream es0)) (upstream (es0 @ Next g # es)))))"
proof -
  have 1: "step (Next g) w0 = values_loop g (nextGeneratorID (bc w0)) (values_register g w0)"
    using g st by (simp add: values_start_def)
  have 2: "map_of (indices (bc (values_register g w0))) (nextGeneratorID (bc w0)) =
           Some (int (length (buffer (bc w0))))"
    by (simp add: values_register_def Let_def update_conv')
  have 3: "gid (gstate (generators w1 ! g)) = Some (nextGeneratorID (bc w0)) \<and>
            map_of (indices (bc w1)) (nextGeneratorID (bc w0)) = Some (int (length (buffer (bc w1))))"
    if "step (Next g) w0 = Inr w1" "\<not> signal_aborted w0 (generators w0 ! g)" for w1
    using that g st
    by (auto simp: values_start_eq result_defs update_conv' split: option.splits)
  have "drop (length (upstream es0)) (upstream (es0 @ Next g # es)) = upstream es"
    by (simp add: upstream_append)
  with listener_sync [OF reach g st run]
  have 4: "\<exists>k. received (results (generators w ! g)) =
            map Some (take k (drop (length (upstream es0)) (upstream (es0 @ Next g # es))))"
    by (auto dest: prefix_take)
  from 1 2 3 4 show ?thesis by blast
qed

theorem late_listener_skips_history_witness:
  "(case run (late_join_example @ [Next 0, Push 3, Settle 0, Push 4, Next 0])
       (new_AsyncBroadcaster True :: nat world) of
      Inl err \<Rightarrow> False
    | Inr w \<Rightarrow> received (results (generators w ! 0)) = [Some 3, Some 4]) \<and>
   (case run (late_join_example @ [Next 0]) (new_AsyncBroadcaster True :: nat world) of
      Inl err \<Rightarrow> False
    | Inr w \<Rightarrow> buffer (bc w) = [1, 2] \<and> indices (bc w) = [(0, 2)])"
proof -
  let ?a = "\<lparr>bc = \<lparr>buffer = [1, 2], nextGeneratorID = 0, indices = [], nextValue = None\<rparr>,
      generators = [\<lparr>signal = None, gstate = SuspendedStart, results = [], joined = None\<rparr>],
      pushing = True, promises = 0, resolved = {}, aborted = {}, produced = [1, 2 :: nat]\<rparr>"
  let ?z = "\<lparr>bc = \<lparr>buffer = [], nextGeneratorID = 1, indices = [(0, 0)], nextValue = None\<rparr>,
      generators = [\<lparr>signal = None, gstate = SuspendedYield 0,
        results = [Value (Some 3), Value (Some 4)], joined = Some 2\<rparr>],
      pushing = True, promises = 1, resolved = {0}, aborted = {}, produced = [1, 2, 3, 4 :: nat]\<rparr>"
  have 0: "run late_join_example (new_AsyncBroadcaster True) = Inr ?a"
    by (simp add: run_defs late_join_example_def)
  have 1: "run (Next 0 # [Push 3, Settle 0, Push 4, Next 0]) ?a = Inr ?z"
    by (simp add: run_defs)
  have 2: "run (late_join_example @ [Next 0, Push 3, Settle 0, Push 4, Next 0])
      (new_AsyncBroadcaster True) = Inr ?z"
    by (simp add: run_defs late_join_example_def)
  have 3: "run (late_join_example @ [Next 0]) (new_AsyncBroadcaster True :: nat world) =
      Inr (values_wait 0 0 (values_register 0 ?a))"
    by (simp add: run_defs late_join_example_def)
  have u: "drop (length (upstream late_join_example))
      (upstream (late_join_example @ Next 0 # [Push 3, Settle 0, Push 4, Next 0])) = [3, 4]"
    by (simp add: upstream_def late_join_example_def)
  from late_listener_skips_history [OF 0 _ _ 1, unfolded u]
  have "map_of (indices (bc (values_register 0 ?a))) (nextGeneratorID (bc ?a)) =
           Some (int (length (buffer (bc ?a))))"
    and "\<exists>k. received (results (generators ?z ! 0)) = map Some (take k [3, 4])"
    by simp_all
  then show ?thesis unfolding 2 3 by (simp add: run_defs)
qed

section \<open>Waking up\<close>

text \<open>
  Claim C7. A listener that waits for a promise that is now resolved has a cursor
  strictly below the length of the buffer, whatever has happened since the promise was
  resolved. When its wait ends without its signal having fired, the read at the cursor
  is in bounds and the value handed over is the next one upstream produced after those
  the listener has received already, so each woken listener receives each value once.
\<close>

theorem woken_listener_reads_in_bounds:
  assumes reach: "run es0 (new_AsyncBroadcaster up) = Inr w0"
    and g: "g < length (generators w0)"
    and st: "gstate (generators w0 ! g) = SuspendedStart"
    and run: "run (Next g # es) w0 = Inr w"
    and waiting: "gstate (generators w ! g) = AwaitNextValue i p"
    and woken: "p \<in> resolved w"
  shows "\<exists>c. map_of (indices (bc w)) i = Some c \<and> 0 \<le> c \<and> c < int (length (buffer (bc w))) \<and>
           length (received (results (generators w ! g))) < length (upstream es) \<and>
           buffer (bc w) ! nat c = upstream es ! length (received (results (generators w ! g))) \<and>
           (\<not> signal_aborted w (generators w ! g) \<longrightarrow>
              (\<exists>w'. step (Settle g) w = Inr w' \<and>
                 gstate (generators w' ! g) = SuspendedYield i \<and>
                 results (generators w' ! g) =
                   results (generators w ! g) @ [Value (Some (buffer (bc w) ! nat c))]))"
proof -
  let ?x = "generators w ! g" and ?b = "bc w"
  let ?k = "length (received (results ?x))"
  from listener_joined [OF reach g st run] have ok: "world_ok w" and gw: "g < length (generators w)"
    by simp_all
  from ok have ok5: "ok5 ?b (generators w) (promises w) (resolved w) (produced w)"
    by (simp add: world_ok_def)
  from waiting have gid: "gid (gstate ?x) = Some i" by simp
  from listener_sync [OF reach g st run] gid obtain c where
    c: "map_of (indices ?b) i = Some c" "0 \<le> c" "c \<le> int (length (buffer ?b))"
    and sync: "map Some (upstream es) = received (results ?x) @ map Some (drop (nat c) (buffer ?b))"
    by blast
  from ok5_gen [OF ok5 gw] waiting woken obtain u where "unread ?b i = Some u" "u \<noteq> []"
    by (auto simp: gen_ok_def)
  with c(1) have ne: "drop (nat c) (buffer ?b) \<noteq> []" by (simp add: unread_def)
  with c(2) have lt: "c < int (length (buffer ?b))" by simp
  from ne obtain rest where d: "drop (nat c) (buffer ?b) = buffer ?b ! nat c # rest"
    by (metis Cons_nth_drop_Suc drop_eq_Nil not_le)
  from sync have "length (upstream es) = ?k + length (drop (nat c) (buffer ?b))"
    by (metis length_append length_map)
  with d have k: "?k < length (upstream es)" by simp
  from sync have "map Some (upstream es) ! ?k =
      (received (results ?x) @ map Some (drop (nat c) (buffer ?b))) ! ?k" by simp
  with k d have val: "buffer ?b ! nat c = upstream es ! ?k" by (simp add: nth_append)
  have settle: "\<exists>w'. step (Settle g) w = Inr w' \<and> gstate (generators w' ! g) = SuspendedYield i \<and>
        results (generators w' ! g) = results ?x @ [Value (Some (buffer ?b ! nat c))]"
    if "\<not> signal_aborted w ?x"
    using that gw waiting woken c(1,2) lt
    by (simp add: values_resume_def values_yield_def Let_def)
  from c(1,2) lt k val settle show ?thesis by blast
qed

theorem woken_listener_reads_in_bounds_witness:
  "(case run (wake_example @ [Settle 1, Settle 0]) (new_AsyncBroadcaster True :: nat world) of
      Inl err \<Rightarrow> False
    | Inr w \<Rightarrow> results (generators w ! 0) = [Value (Some 7)] \<and>
        results (generators w ! 1) = [Value (Some 7)] \<and> buffer (bc w) = [])"
proof -
  let ?a = "\<lparr>bc = \<lparr>buffer = [], nextGeneratorID = 0, indices = [], nextValue = None\<rparr>,
      generators = [\<lparr>signal = None, gstate = SuspendedStart, results = [], joined = None\<rparr>,
        \<lparr>signal = None, gstate = SuspendedStart, results = [], joined = None\<rparr>],
      pushing = True, promises = 0, resolved = {}, aborted = {}, produced = ([] :: nat list)\<rparr>"
  let ?z = "\<lparr>bc = \<lparr>buffer = [7], nextGeneratorID = 2, indices = [(0, 0), (1, 1)], nextValue = None\<rparr>,
      generators = [\<lparr>signal = None, gstate = AwaitNextValue 0 0, results = [], joined = Some 0\<rparr>,
        \<lparr>signal = None, gstate = SuspendedYield 1, results = [Value (Some 7)], joined = Some 0\<rparr>],
      pushing = True, promises = 1, resolved = {0}, aborted = {}, produced = [7 :: nat]\<rparr>"
  have 0: "run [Values None, Values None] (new_AsyncBroadcaster True) = Inr ?a"
    by (simp add: run_defs)
  have 1: "run (Next 0 # [Next 1, Push 7, Settle 1]) ?a = Inr ?z"
    by (simp add: run_defs)
  have 2: "run (wake_example @ [Settle 1]) (new_AsyncBroadcaster True) = Inr ?z"
    by (simp add: run_defs wake_example_def)
  have 3: "run (wake_example @ [Settle 1, Settle 0]) (new_AsyncBroadcaster True :: nat world) =
      step (Settle 0) ?z"
    by (simp add: run_defs wake_example_def)
  from woken_listener_reads_in_bounds [OF 0 _ _ 1, of 0 0]
  obtain c w' where "map_of (indices (bc ?z)) 0 = Some c" "step (Settle 0) ?z = Inr w'"
    "results (generators w' ! 0) = results (generators ?z ! 0) @ [Value (Some (buffer (bc ?z) ! nat c))]"
    by (auto simp: signal_aborted_def)
  then show ?thesis unfolding 3 by (auto simp: run_defs)
qed

section \<open>Obtaining a sequence\<close>

text \<open>
  Claim C10. Calling the accessor makes a generator object and changes nothing of the
  broadcaster. An identity is allocated, or a cursor registered for an identity that
  had none, only by the first pull on a sequence. Values appended between the call and
  the first pull are never observed by that listener: what it receives is an initial
  segment of the values produced after the first pull.
\<close>

theorem obtaining_a_sequence_changes_nothing:
  assumes reach: "run es0 (new_AsyncBroadcaster up) = Inr (w0 :: 'a world)"
  shows "\<exists>w1. step (Values sg) w0 = Inr w1 \<and> bc w1 = bc w0 \<and>
           generators w1 = generators w0 @
             [\<lparr>signal = sg, gstate = SuspendedStart, results = [], joined = None\<rparr>] \<and>
           (\<forall>e (w :: 'a world) w'. step e w = Inr w' \<and>
              (nextGeneratorID (bc w') \<noteq> nextGeneratorID (bc w) \<or>
               (\<exists>j. map_of (indices (bc w')) j \<noteq> None \<and> map_of (indices (bc w)) j = None)) \<longrightarrow>
              (\<exists>h. e = Next h \<and> h < length (generators w) \<and>
                 gstate (generators w ! h) = SuspendedStart)) \<and>
           (\<forall>es1 w2 es2 w3.
              run es1 w1 = Inr w2 \<and>
              gstate (generators w2 ! length (generators w0)) = SuspendedStart \<and>
              run (Next (length (generators w0)) # es2) w2 = Inr w3 \<longrightarrow>
              (\<exists>k. received (results (generators w3 ! length (generators w0))) =
                 map Some (take k (upstream es2))))"
proof -
  let ?g = "length (generators w0)"
  let ?w1 = "w0\<lparr>generators := generators w0 @
      [\<lparr>signal = sg, gstate = SuspendedStart, results = [], joined = None\<rparr>]\<rparr>"
  have 1: "step (Values sg) w0 = Inr ?w1" by simp
  have 2: "\<exists>k. received (results (generators w3 ! ?g)) = map Some (take k (upstream es2))"
    if r1: "run es1 ?w1 = Inr w2" and st: "gstate (generators w2 ! ?g) = SuspendedStart"
      and r2: "run (Next ?g # es2) w2 = Inr w3" for es1 w2 es2 w3
  proof -
    from reach 1 r1 have reach2: "run (es0 @ Values sg # es1) (new_AsyncBroadcaster up) = Inr w2"
      by (simp add: run_append)
    have "?g < length (generators ?w1)" by simp
    from run_frame [OF r1 this] have g2: "?g < length (generators w2)" by simp
    from listener_sync [OF reach2 g2 st r2] show ?thesis by (auto dest: prefix_take)
  qed
  have 3: "\<exists>h. e = Next h \<and> h < length (generators w) \<and> gstate (generators w ! h) = SuspendedStart"
    if "step e w = Inr w' \<and>
        (nextGeneratorID (bc w') \<noteq> nextGeneratorID (bc w) \<or>
         (\<exists>j. map_of (indices (bc w')) j \<noteq> None \<and> map_of (indices (bc w)) j = None))"
    for e and w w' :: "'a world"
    using that step_registers [of e w w'] by blast
  have 4: "bc ?w1 = bc w0" "generators ?w1 = generators w0 @
      [\<lparr>signal = sg, gstate = SuspendedStart, results = [], joined = None\<rparr>]" by simp_all
  show ?thesis
    apply (rule exI [of _ ?w1])
    apply (intro conjI allI impI)
        apply (rule 1)
       apply (rule 4)
      apply (rule 4)
     apply (erule 3)
    apply (elim conjE)
    apply (erule (2) 2)
    done
qed

theorem obtaining_a_sequence_changes_nothing_witness:
  "(case run ([Values None] @ idle_sequence_example @ [Next 0, Push 3, Settle 0])
       (new_AsyncBroadcaster True :: nat world) of
      Inl err \<Rightarrow> False
    | Inr w \<Rightarrow> received (results (generators w ! 0)) = [Some 3]) \<and>
   (case run ([Values None] @ idle_sequence_example) (new_AsyncBroadcaster True :: nat world) of
      Inl err \<Rightarrow> False
    | Inr w \<Rightarrow> nextGeneratorID (bc w) = 0 \<and> indices (bc w) = [])"
proof -
  let ?a = "\<lparr>bc = \<lparr>buffer = [1, 2], nextGeneratorID = 0, indices = [], nextValue = None\<rparr>,
      generators = [\<lparr>signal = None, gstate = SuspendedStart, results = [], joined = None\<rparr>],
      pushing = True, promises = 0, resolved = {}, aborted = {}, produced = [1, 2 :: nat]\<rparr>"
  let ?z = "\<lparr>bc = \<lparr>buffer = [], nextGeneratorID = 1, indices = [(0, 0)], nextValue = None\<rparr>,
      generators = [\<lparr>signal = None, gstate = SuspendedYield 0,
        results = [Value (Some 3)], joined = Some 2\<rparr>],
      pushing = True, promises = 1, resolved = {0}, aborted = {}, produced = [1, 2, 3 :: nat]\<rparr>"
  have 0: "run [] (new_AsyncBroadcaster True :: nat world) = Inr (new_AsyncBroadcaster True)"
    by simp
  have 1: "run idle_sequence_example
      ((new_AsyncBroadcaster True)\<lparr>generators := generators (new_AsyncBroadcaster True) @
        [\<lparr>signal = None, gstate = SuspendedStart, results = [], joined = None\<rparr>]\<rparr>) = Inr ?a"
    by (simp add: run_defs idle_sequence_example_def)
  have 2: "run (Next 0 # [Push 3, Settle 0]) ?a = Inr ?z" by (simp add: run_defs)
  have 3: "run ([Values None] @ idle_sequence_example @ [Next 0, Push 3, Settle 0])
      (new_AsyncBroadcaster True) = Inr ?z"
    by (simp add: run_defs idle_sequence_example_def)
  have 4: "run ([Values None] @ idle_sequence_example) (new_AsyncBroadcaster True) = Inr ?a"
    by (simp add: run_defs idle_sequence_example_def)
  from obtaining_a_sequence_changes_nothing [OF 0, of None] obtain w1 where
    w1: "step (Values None) (new_AsyncBroadcaster True :: nat world) = Inr w1"
    and later: "\<And>es1 w2 es2 w3. run es1 w1 = Inr w2 \<Longrightarrow>
       gstate (generators w2 ! length (generators (new_AsyncBroadcaster True :: nat world))) = SuspendedStart \<Longrightarrow>
       run (Next (length (generators (new_AsyncBroadcaster True :: nat world))) # es2) w2 = Inr w3 \<Longrightarrow>
       \<exists>k. received (results (generators w3 ! length (generators (new_AsyncBroadcaster True :: nat world)))) =
         map Some (take k (upstream es2))"
    by blast
  from w1 1 have "run idle_sequence_example w1 = Inr ?a" by auto
  from later [OF this, of "[Push 3, Settle 0]" ?z] 2
  have "\<exists>k. received (results (generators ?z ! 0)) = map Some (take k (upstream [Push 3, Settle 0]))"
    by (simp add: new_AsyncBroadcaster_def)
  then show ?thesis unfolding 3 4 by simp
qed

section \<open>Cursors\<close>

text \<open>
  Claim C6. In every reachable state every registered cursor is at least 0 and at
  most the length of the buffer. Across every step (an append, a pull, the removal of a
  listener, or any other) a cursor that is registered before and after the step either
  keeps its value or grows by one, less the number of values the step trims from the
  front of the buffer; that number is the same for every cursor, and it is never
  negative.
\<close>

theorem cursors_bounded_and_monotone:
  assumes reach: "run es (new_AsyncBroadcaster up) = Inr w"
  shows "(\<forall>i c. map_of (indices (bc w)) i = Some c \<longrightarrow>
            0 \<le> c \<and> c \<le> int (length (buffer (bc w)))) \<and>
         (\<forall>e w'. step e w = Inr w' \<longrightarrow>
            0 \<le> trimmed e w w' \<and>
            buffer (bc w') = drop (nat (trimmed e w w')) (buffer (bc w) @ pushed e) \<and>
            (\<forall>i c c'. map_of (indices (bc w)) i = Some c \<and> map_of (indices (bc w')) i = Some c' \<longrightarrow>
               c' = c - trimmed e w w' \<or> c' = c + 1 - trimmed e w w'))"
proof -
  from reach have ok: "world_ok w" by (rule reachable_ok)
  then have wf: "wf_bc (bc w)" by (simp add: world_ok_def ok5_def)
  have bounds: "0 \<le> c \<and> c \<le> int (length (buffer (bc w)))"
    if "map_of (indices (bc w)) i = Some c" for i c
    using wf that unfolding wf_bc_def by blast
  have moves: "0 \<le> trimmed e w w' \<and>
      buffer (bc w') = drop (nat (trimmed e w w')) (buffer (bc w) @ pushed e) \<and>
      (\<forall>i c c'. map_of (indices (bc w)) i = Some c \<and> map_of (indices (bc w')) i = Some c' \<longrightarrow>
         c' = c - trimmed e w w' \<or> c' = c + 1 - trimmed e w w')"
    if st: "step e w = Inr w'" for e w'
  proof -
    let ?xs = "buffer (bc w) @ pushed e" and ?m = "trimmed e w w'"
    from world_ok_step [OF ok st] have wf': "wf_bc (bc w')" by (simp add: world_ok_def ok5_def)
    from step_buffer [OF st] obtain k where k: "buffer (bc w') = drop k ?xs" ..
    then have len: "length (buffer (bc w')) = length ?xs - k" by simp
    then have m0: "0 \<le> ?m" by (simp add: trimmed_def)
    from len have "nat ?m = min k (length ?xs)" by (auto simp: trimmed_def)
    with k have buf: "buffer (bc w') = drop (nat ?m) ?xs" by (simp add: min_def)
    have cur: "c' = c - ?m \<or> c' = c + 1 - ?m"
      if c: "map_of (indices (bc w)) i = Some c" and c': "map_of (indices (bc w')) i = Some c'"
      for i c c'
    proof -
      from bounds [OF c] have b: "0 \<le> c" "c \<le> int (length (buffer (bc w)))" by simp_all
      from wf' c' have b': "0 \<le> c'" "c' \<le> int (length (buffer (bc w')))"
        unfolding wf_bc_def by blast+
      let ?u = "drop (nat c) (buffer (bc w))" and ?u' = "drop (nat c') (buffer (bc w'))"
      from c c' have "unread (bc w) i = Some ?u" "unread (bc w') i = Some ?u'"
        by (simp_all add: unread_def)
      from step_unread [OF ok st this]
      have "length ?u' = length ?u + length (pushed e) \<or>
            pushed e = [] \<and> length ?u = Suc (length ?u')"
        by (metis length_append length_Cons)
      with b b' show ?thesis by (auto simp: trimmed_def)
    qed
    from m0 buf cur show ?thesis by blast
  qed
  from bounds moves show ?thesis by blast
qed

theorem cursors_bounded_and_monotone_witness:
  "(case run cursor_example (new_AsyncBroadcaster True :: nat world) of
      Inl err \<Rightarrow> False
    | Inr w \<Rightarrow> indices (bc w) = [(0, 0), (1, 0)] \<and> buffer (bc w) = [6] \<and>
        (case step (Next 0) w of
           Inl err \<Rightarrow> False
         | Inr w' \<Rightarrow> indices (bc w') = [(0, 1), (1, 0)] \<and> buffer (bc w') = [6] \<and>
             trimmed (Next 0) w w' = 0) \<and>
        (case run [Next 0, Next 1] w of
           Inl err \<Rightarrow> False
         | Inr w' \<Rightarrow> indices (bc w') = [(0, 0), (1, 0)] \<and> buffer (bc w') = []))"
proof -
  let ?a = "\<lparr>bc = \<lparr>buffer = [6], nextGeneratorID = 2, indices = [(0, 0), (1, 0)], nextValue = None\<rparr>,
      generators = [\<lparr>signal = None, gstate = SuspendedYield 0, results = [Value (Some 5)], joined = Some 0\<rparr>,
        \<lparr>signal = None, gstate = SuspendedYield 1, results = [Value (Some 5)], joined = Some 0\<rparr>],
      pushing = True, promises = 1, resolved = {0}, aborted = {}, produced = [5, 6 :: nat]\<rparr>"
  let ?z = "\<lparr>bc = \<lparr>buffer = [6], nextGeneratorID = 2, indices = [(0, 1), (1, 0)], nextValue = None\<rparr>,
      generators = [\<lparr>signal = None, gstate = SuspendedYield 0,
          results = [Value (Some 5), Value (Some 6)], joined = Some 0\<rparr>,
        \<lparr>signal = None, gstate = SuspendedYield 1, results = [Value (Some 5)], joined = Some 0\<rparr>],
      pushing = True, promises = 1, resolved = {0}, aborted = {}, produced = [5, 6 :: nat]\<rparr>"
  have 0: "run cursor_example (new_AsyncBroadcaster True) = Inr ?a"
    by (simp add: run_defs cursor_example_def)
  have 1: "step (Next 0) ?a = Inr ?z" by (simp add: run_defs)
  from cursors_bounded_and_monotone [OF 0] 1
  have "0 \<le> trimmed (Next 0) ?a ?z"
    and "buffer (bc ?z) = drop (nat (trimmed (Next 0) ?a ?z)) (buffer (bc ?a) @ pushed (Next 0))"
    by blast+
  then show ?thesis unfolding 0 by (simp add: run_defs trimmed_def)
qed

section \<open>Termination of a listener\<close>

text \<open>
  Claim C8. A listener whose body has started terminates by \<^verbatim>\<open>return\<close> or \<^verbatim>\<open>throw\<close>
  from the consumer (a \<^verbatim>\<open>break\<close> or an error in the consuming loop) or because its
  signal has fired, seen at the next pull or at the end of its wait. Each of these runs
  the same path: the entry of the listener is deleted, \<^verbatim>\<open>_trim\<close> runs, and the
  registry has no entry for the listener afterwards; and every step that completes the
  generator is this path. Once the signal has fired, the listener receives no further
  value, whatever the buffer holds.
\<close>

theorem termination_cleans_up:
  assumes g: "g < length (generators w)"
    and i: "gid (gstate (generators w ! g)) = Some i"
  shows "(gstate (generators w ! g) = SuspendedYield i \<longrightarrow>
            step (Return g) w = Inr (values_finally g i w) \<and>
            step (Throw g) w = Inr (values_finally g i w)) \<and>
         (signal_aborted w (generators w ! g) \<longrightarrow>
            (gstate (generators w ! g) = SuspendedYield i \<longrightarrow>
               step (Next g) w = Inr (values_finally g i w)) \<and>
            (\<forall>p. gstate (generators w ! g) = AwaitNextValue i p \<longrightarrow>
               step (Settle g) w = Inr (values_finally g i w))) \<and>
         bc (values_finally g i w) = trim ((bc w)\<lparr>indices := AList.delete i (indices (bc w))\<rparr>) \<and>
         map_of (indices (bc (values_finally g i w))) i = None \<and>
         gstate (generators (values_finally g i w) ! g) = Completed (Some i) \<and>
         (\<forall>e w' io. step e w = Inr w' \<and> gstate (generators w' ! g) = Completed io \<longrightarrow>
            w' = values_finally g i w) \<and>
         (signal_aborted w (generators w ! g) \<longrightarrow>
            (\<forall>es w'. run es w = Inr w' \<longrightarrow>
               received (results (generators w' ! g)) = received (results (generators w ! g))))"
proof -
  have 1: "step (Return g) w = Inr (values_finally g i w) \<and>
      step (Throw g) w = Inr (values_finally g i w)"
    if "gstate (generators w ! g) = SuspendedYield i"
    using that g by simp
  have 2: "step (Next g) w = Inr (values_finally g i w)"
    if "signal_aborted w (generators w ! g)" "gstate (generators w ! g) = SuspendedYield i"
    using that g by (simp add: values_loop_def)
  have 3: "step (Settle g) w = Inr (values_finally g i w)"
    if "signal_aborted w (generators w ! g)" "gstate (generators w ! g) = AwaitNextValue i p" for p
    using that g by (simp add: values_resume_def values_finally_cleanup)
  have 4: "bc (values_finally g i w) = trim ((bc w)\<lparr>indices := AList.delete i (indices (bc w))\<rparr>)"
    by (simp add: values_finally_def Let_def cleanup_def)
  have 5: "map_of (indices (bc (values_finally g i w))) i = None"
    by (simp add: values_finally_def Let_def map_of_cleanup_same)
  have 6: "gstate (generators (values_finally g i w) ! g) = Completed (Some i)"
    using g by (simp add: values_finally_def Let_def)
  have 7: "w' = values_finally g i w"
    if "step e w = Inr w' \<and> gstate (generators w' ! g) = Completed io" for e w' io
    using that step_completes [OF _ g i] by blast
  have 8: "received (results (generators w' ! g)) = received (results (generators w ! g))"
    if "signal_aborted w (generators w ! g)" "run es w = Inr w'" for es w'
    using run_aborted [OF that(2) g that(1)] by simp
  from 1 2 3 4 5 6 7 8 show ?thesis by blast
qed

theorem termination_cleans_up_witness:
  "(case run cancel_example (new_AsyncBroadcaster True :: nat world) of
      Inl err \<Rightarrow> False
    | Inr w \<Rightarrow> buffer (bc w) = [2] \<and> indices (bc w) = [(0, 0)] \<and>
        received (results (generators w ! 0)) = [Some 1] \<and>
        step (Next 0) w = Inr (values_finally 0 0 w) \<and>
        (case run [Next 0, Next 0] w of
           Inl err \<Rightarrow> False
         | Inr w' \<Rightarrow> received (results (generators w' ! 0)) = [Some 1] \<and>
             indices (bc w') = [] \<and> gstate (generators w' ! 0) = Completed (Some 0)))"
proof -
  let ?a = "\<lparr>bc = \<lparr>buffer = [2], nextGeneratorID = 1, indices = [(0, 0)], nextValue = None\<rparr>,
      generators = [\<lparr>signal = Some 0, gstate = SuspendedYield 0, results = [Value (Some 1)],
        joined = Some 0\<rparr>],
      pushing = True, promises = 1, resolved = {0}, aborted = {0}, produced = [1, 2 :: nat]\<rparr>"
  let ?z = "\<lparr>bc = \<lparr>buffer = [], nextGeneratorID = 1, indices = [], nextValue = None\<rparr>,
      generators = [\<lparr>signal = Some 0, gstate = Completed (Some 0),
        results = [Value (Some 1), Done, Done], joined = Some 0\<rparr>],
      pushing = True, promises = 1, resolved = {0}, aborted = {0}, produced = [1, 2 :: nat]\<rparr>"
  have 0: "run cancel_example (new_AsyncBroadcaster True) = Inr ?a"
    by (simp add: run_defs cancel_example_def)
  have 1: "run [Next 0, Next 0] ?a = Inr ?z" by (simp add: run_defs)
  have g: "0 < length (generators ?a)" and i: "gid (gstate (generators ?a ! 0)) = Some 0"
    and ab: "signal_aborted ?a (generators ?a ! 0)"
    by (simp_all add: signal_aborted_def)
  from termination_cleans_up [OF g i] ab 1
  have "received (results (generators ?z ! 0)) = received (results (generators ?a ! 0))"
    by blast
  then show ?thesis unfolding 0 by (simp add: run_defs)
qed

text \<open>
  Claim C9. When the signal has already fired at the first pull on a sequence, the pull
  is answered with completion and no value, the identity just allocated has no entry in
  the registry, and it stays so: no later pull yields a value.
\<close>

theorem aborted_before_start_yields_nothing:
  assumes reach: "run es0 (new_AsyncBroadcaster up) = Inr w"
    and g: "g < length (generators w)"
    and st: "gstate (generators w ! g) = SuspendedStart"
    and ab: "signal_aborted w (generators w ! g)"
  shows "\<exists>w'. step (Next g) w = Inr w' \<and>
           results (generators w' ! g) = [Done] \<and>
           gstate (generators w' ! g) = Completed (Some (nextGeneratorID (bc w))) \<and>
           map_of (indices (bc w')) (nextGeneratorID (bc w)) = None \<and>
           (\<forall>es w''. run es w' = Inr w'' \<longrightarrow>
              received (results (generators w'' ! g)) = [] \<and>
              gstate (generators w'' ! g) = Completed (Some (nextGeneratorID (bc w))) \<and>
              map_of (indices (bc w'')) (nextGeneratorID (bc w)) = None)"
proof -
  let ?i = "nextGeneratorID (bc w)"
  let ?w' = "values_finally g ?i (values_register g w)"
  from reach have ok: "world_ok w" by (rule reachable_ok)
  then have ok5: "ok5 (bc w) (generators w) (promises w) (resolved w) (produced w)"
    by (simp add: world_ok_def)
  from ok5_gen [OF ok5 g] st have nil: "results (generators w ! g) = []" by (simp add: gen_ok_def)
  have 1: "step (Next g) w = Inr ?w'" using g st ab by (simp add: values_start_eq)
  have 2: "results (generators ?w' ! g) = [Done]"
    using g nil by (simp add: values_finally_def values_register_def Let_def)
  have 3: "gstate (generators ?w' ! g) = Completed (Some ?i)"
    using g by (simp add: values_finally_def values_register_def Let_def)
  have 4: "map_of (indices (bc ?w')) ?i = None"
    by (simp add: values_finally_def Let_def map_of_cleanup_same)
  have 5: "received (results (generators w'' ! g)) = [] \<and>
      gstate (generators w'' ! g) = Completed (Some ?i) \<and>
      map_of (indices (bc w'')) ?i = None"
    if r: "run es ?w' = Inr w''" for es w''
  proof -
    from step_frame [OF 1 g] have g': "g < length (generators ?w')" by simp
    from step_aborted [OF 1 g ab] have ab': "signal_aborted ?w' (generators ?w' ! g)" by simp
    from run_aborted [OF r g' ab'] 2
    have a: "received (results (generators w'' ! g)) = []" by simp
    from run_frame [OF r g'] 3
    have b: "gstate (generators w'' ! g) = Completed (Some ?i)" and g'': "g < length (generators w'')"
      by simp_all
    from world_ok_step [OF ok 1] r have "world_ok w''" by (rule world_ok_run)
    then have "ok5 (bc w'') (generators w'') (promises w'') (resolved w'') (produced w'')"
      by (simp add: world_ok_def)
    from ok5_gen [OF this g''] b have "unread (bc w'') ?i = None" by (simp add: gen_ok_def)
    then have c: "map_of (indices (bc w'')) ?i = None" by (simp add: unread_def)
    from a b c show ?thesis by simp
  qed
  from 1 2 3 4 5 show ?thesis by blast
qed

theorem aborted_before_start_yields_nothing_witness:
  "(case run (aborted_start_example @ [Next 0, Push 2, Next 0]) (new_AsyncBroadcaster True :: nat world) of
      Inl err \<Rightarrow> False
    | Inr w \<Rightarrow> results (generators w ! 0) = [Done, Done] \<and>
        gstate (generators w ! 0) = Completed (Some 0) \<and> indices (bc w) = [])"
proof -
  let ?a = "\<lparr>bc = \<lparr>buffer = [1], nextGeneratorID = 0, indices = [], nextValue = None\<rparr>,
      generators = [\<lparr>signal = Some 0, gstate = SuspendedStart, results = [], joined = None\<rparr>],
      pushing = True, promises = 0, resolved = {}, aborted = {0}, produced = [1 :: nat]\<rparr>"
  let ?b = "\<lparr>bc = \<lparr>buffer = [], nextGeneratorID = 1, indices = [], nextValue = None\<rparr>,
      generators = [\<lparr>signal = Some 0, gstate = Completed (Some 0), results = [Done],
        joined = Some 1\<rparr>],
      pushing = True, promises = 0, resolved = {}, aborted = {0}, produced = [1 :: nat]\<rparr>"
  let ?z = "\<lparr>bc = \<lparr>buffer = [2], nextGeneratorID = 1, indices = [], nextValue = None\<rparr>,
      generators = [\<lparr>signal = Some 0, gstate = Completed (Some 0), results = [Done, Done],
        joined = Some 1\<rparr>],
      pushing = True, promises = 0, resolved = {}, aborted = {0}, produced = [1, 2 :: nat]\<rparr>"
  have 0: "run aborted_start_example (new_AsyncBroadcaster True) = Inr ?a"
    by (simp add: run_defs aborted_start_example_def)
  have 1: "step (Next 0) ?a = Inr ?b" by (simp add: run_defs)
  have 2: "run [Push 2, Next 0] ?b = Inr ?z" by (simp add: run_defs)
  have 3: "run (aborted_start_example @ [Next 0, Push 2, Next 0]) (new_AsyncBroadcaster True) = Inr ?z"
    by (simp add: run_defs aborted_start_example_def)
  from aborted_before_start_yields_nothing [OF 0, of 0] 1 2
  have "results (generators ?b ! 0) = [Done]"
    and "received (results (generators ?z ! 0)) = []"
    and "map_of (indices (bc ?z)) (nextGeneratorID (bc ?a)) = None"
    by (auto simp: signal_aborted_def)
  then show ?thesis unfolding 3 by simp
qed

section \<open>The non-null assertions\<close>

text \<open>
  The two reads \<^verbatim>\<open>this._indices.get(id)!\<close> (lines 59 and 77) assert that the listener
  is registered. In every reachable state they are right: no step ends in the branch
  that stands for a failed assertion.
\<close>

theorem non_null_assertions_hold:
  assumes "run es (new_AsyncBroadcaster up) = Inr w"
  shows "step e w \<noteq> Inl NonNullAssertion"
  using assms by (intro step_no_fault reachable_ok)

theorem non_null_assertions_hold_witness:
  "step (Settle 0)
     \<lparr>bc = \<lparr>buffer = [1], nextGeneratorID = 1, indices = [(0, 0)], nextValue = None\<rparr>,
      generators = [\<lparr>signal = None, gstate = AwaitNextValue 0 0, results = [], joined = Some 0\<rparr>],
      pushing = True, promises = 1, resolved = {0}, aborted = {}, produced = [1 :: nat]\<rparr>
   \<noteq> Inl NonNullAssertion"
proof -
  have "run [Values None, Next 0, Push 1] (new_AsyncBroadcaster True) =
      Inr \<lparr>bc = \<lparr>buffer = [1], nextGeneratorID = 1, indices = [(0, 0)], nextValue = None\<rparr>,
        generators = [\<lparr>signal = None, gstate = AwaitNextValue 0 0, results = [], joined = Some 0\<rparr>],
        pushing = True, promises = 1, resolved = {0}, aborted = {}, produced = [1 :: nat]\<rparr>"
    by (simp add: run_defs)
  then show ?thesis by (rule non_null_assertions_hold)
qed

end
